theory Spec2Isabelle
  imports Complex_Main
begin

section \<open>JavaScript values\<close>

text \<open>
  The bundle \<^verbatim>\<open>object-socket.enrollment.bundle.js\<close> handles frames as JavaScript values.
  \<open>jsval\<close> holds the values that \<^verbatim>\<open>JSON.parse\<close> can return and that payloads are made of,
  and \<^verbatim>\<open>undefined\<close>. A number is a finite real, an infinity or \<^verbatim>\<open>NaN\<close> (the sign of zero
  is not kept: \<^verbatim>\<open>-0\<close> behaves as \<^verbatim>\<open>0\<close> in every test of the bundle). A string is a list of
  code units below 256. An object is the list of its own properties in insertion order.
\<close>

datatype jsnum = NaN | NegInf | Fin real | PosInf

datatype jsval =
    JUndefined
  | JNull
  | JBool bool
  | JNum jsnum
  | JStr string
  | JArr "jsval list"
  | JObj "(string \<times> jsval) list"

datatype js_error = TypeError | SyntaxError | Error string

text \<open>Truthiness, as \<^verbatim>\<open>if (v)\<close>, \<^verbatim>\<open>!v\<close>, \<^verbatim>\<open>a || b\<close> and \<^verbatim>\<open>a && b\<close> read a value.\<close>

fun truthy :: "jsval \<Rightarrow> bool" where
  "truthy JUndefined = False"
| "truthy JNull = False"
| "truthy (JBool b) = b"
| "truthy (JNum n) = (n \<noteq> NaN \<and> n \<noteq> Fin 0)"
| "truthy (JStr s) = (s \<noteq> [])"
| "truthy (JArr xs) = True"
| "truthy (JObj kvs) = True"

definition js_or :: "jsval \<Rightarrow> jsval \<Rightarrow> jsval" where
  "js_or a b = (if truthy a then a else b)"

definition js_and :: "jsval \<Rightarrow> jsval \<Rightarrow> jsval" where
  "js_and a b = (if truthy a then b else a)"

fun typeof :: "jsval \<Rightarrow> string" where
  "typeof JUndefined = ''undefined''"
| "typeof JNull = ''object''"
| "typeof (JBool b) = ''boolean''"
| "typeof (JNum n) = ''number''"
| "typeof (JStr s) = ''string''"
| "typeof (JArr xs) = ''object''"
| "typeof (JObj kvs) = ''object''"

definition nullish :: "jsval \<Rightarrow> bool" where
  "nullish v = (v = JUndefined \<or> v = JNull)"

text \<open>
  \<open>get_prop v k\<close> is \<^verbatim>\<open>v.k\<close> for a value that is neither \<^verbatim>\<open>null\<close> nor \<^verbatim>\<open>undefined\<close>
  (where JavaScript raises a TypeError: the callers below test \<open>nullish\<close> first), and
  \<^verbatim>\<open>v?.k\<close> for every value. The bundle reads only named properties that no prototype
  defines (\<^verbatim>\<open>type\<close>, \<^verbatim>\<open>id\<close>, \<^verbatim>\<open>replyTo\<close>, \<^verbatim>\<open>payload\<close>, \<^verbatim>\<open>error\<close>, \<^verbatim>\<open>Message\<close>, ...), so
  arrays and primitives answer \<^verbatim>\<open>undefined\<close>.
\<close>

fun get_prop :: "jsval \<Rightarrow> string \<Rightarrow> jsval" where
  "get_prop (JObj kvs) k = (case map_of kvs k of Some v \<Rightarrow> v | None \<Rightarrow> JUndefined)"
| "get_prop v k = JUndefined"

text \<open>
  Setting a property keeps the position of a key that exists and appends a new one,
  as assignment to an object does.
\<close>

fun set_prop :: "string \<Rightarrow> jsval \<Rightarrow> (string \<times> jsval) list \<Rightarrow> (string \<times> jsval) list" where
  "set_prop k v [] = [(k, v)]"
| "set_prop k v ((k', v') # kvs) =
     (if k = k' then (k, v) # kvs else (k', v') # set_prop k v kvs)"

subsection \<open>Numbers as text\<close>

text \<open>
  \<^verbatim>\<open>Number.prototype.toString(radix)\<close> on a natural number: the digits \<^verbatim>\<open>0-9a-z\<close>, most
  significant first. Radix 10 names the index properties of arrays and strings, radix 36
  builds request ids.
\<close>

definition digit_char :: "nat \<Rightarrow> char" where
  "digit_char d = (if d < 10 then char_of (48 + d) else char_of (87 + d))"

fun to_radix :: "nat \<Rightarrow> nat \<Rightarrow> string" where
  "to_radix b n =
     (if b < 2 \<or> n < b then [digit_char n]
      else to_radix b (n div b) @ [digit_char (n mod b)])"

subsection \<open>String operations\<close>

text \<open>
  \<^verbatim>\<open>String.prototype.trim\<close> removes white space and line terminators at both ends; among
  the code units below 256 these are TAB, LF, VT, FF, CR, SPACE and NBSP.
  \<^verbatim>\<open>toUpperCase\<close> maps \<^verbatim>\<open>a-z\<close> and the accented Latin-1 letters to their capitals and
  \<^verbatim>\<open>U+00DF\<close> to \<^verbatim>\<open>SS\<close>; the two letters whose capitals lie above 255 stay, which no
  comparison of the bundle can tell apart (it compares with ASCII text only).
\<close>

definition is_js_space :: "char \<Rightarrow> bool" where
  "is_js_space c = (of_char c \<in> {9, 10, 11, 12, 13, 32, 160 :: nat})"

definition trim :: "string \<Rightarrow> string" where
  "trim s = rev (dropWhile is_js_space (rev (dropWhile is_js_space s)))"

definition upper_char :: "char \<Rightarrow> string" where
  "upper_char c =
     (let n = (of_char c :: nat) in
      if 97 \<le> n \<and> n \<le> 122 then [char_of (n - 32)]
      else if n = 223 then ''SS''
      else if 224 \<le> n \<and> n \<le> 254 \<and> n \<noteq> 247 then [char_of (n - 32)]
      else [c])"

definition toUpperCase :: "string \<Rightarrow> string" where
  "toUpperCase s = concat (map upper_char s)"

definition startsWith :: "string \<Rightarrow> string \<Rightarrow> bool" where
  "startsWith s p = (take (length p) s = p)"

definition endsWith :: "string \<Rightarrow> string \<Rightarrow> bool" where
  "endsWith s p = (length p \<le> length s \<and> drop (length s - length p) s = p)"

definition is_hex_digit :: "char \<Rightarrow> bool" where
  "is_hex_digit c =
     (let n = (of_char c :: nat) in
      (48 \<le> n \<and> n \<le> 57) \<or> (97 \<le> n \<and> n \<le> 102) \<or> (65 \<le> n \<and> n \<le> 70))"

subsection \<open>Built-ins of the host\<close>

text \<open>
  \<^verbatim>\<open>JSON.parse\<close>, \<^verbatim>\<open>TextDecoder.decode\<close> and the number conversion of strings and objects
  belong to the JavaScript engine, not to the bundle. The model takes them as a record of
  functions: \<open>JSON_parse\<close> answers \<open>None\<close> where the built-in throws, \<open>ToNumber\<close> is the
  engine's conversion of a string, array or object to a number (\<open>None\<close> where the
  conversion throws).
\<close>

record host =
  JSON_parse :: "string \<Rightarrow> jsval option"
  TextDecoder_decode :: "nat list \<Rightarrow> string"
  ToNumber :: "jsval \<Rightarrow> jsnum option"

text \<open>
  \<^verbatim>\<open>v == 0\<close> and \<^verbatim>\<open>v > 0\<close>. \<^verbatim>\<open>undefined\<close> and \<^verbatim>\<open>null\<close> are not loosely equal to a number;
  a boolean is compared as 0 or 1; everything else but a number is converted first.
\<close>

definition num_positive :: "jsnum \<Rightarrow> bool" where
  "num_positive n = (case n of Fin r \<Rightarrow> 0 < r | PosInf \<Rightarrow> True | _ \<Rightarrow> False)"

definition loose_eq_zero :: "host \<Rightarrow> jsval \<Rightarrow> bool option" where
  "loose_eq_zero h v =
     (case v of
        JUndefined \<Rightarrow> Some False
      | JNull \<Rightarrow> Some False
      | JBool b \<Rightarrow> Some (\<not> b)
      | JNum n \<Rightarrow> Some (n = Fin 0)
      | _ \<Rightarrow> map_option (\<lambda>n. n = Fin 0) (ToNumber h v))"

definition gt_zero :: "host \<Rightarrow> jsval \<Rightarrow> bool option" where
  "gt_zero h v =
     (case v of
        JUndefined \<Rightarrow> Some False
      | JNull \<Rightarrow> Some False
      | JBool b \<Rightarrow> Some b
      | JNum n \<Rightarrow> Some (num_positive n)
      | _ \<Rightarrow> map_option num_positive (ToNumber h v))"

section \<open>Protocol adapter: encoder and decoder of the enrollment client\<close>

subsection \<open>Encoder\<close>

text \<open>
  \<^verbatim>\<open>Object.assign(target, source)\<close> copies the own enumerable properties of the source, in
  order: the properties of an object, the elements of an array and the characters of a
  string under their indices; a number or a boolean has none.
\<close>

definition own_entries :: "jsval \<Rightarrow> (string \<times> jsval) list" where
  "own_entries v =
     (case v of
        JObj kvs \<Rightarrow> kvs
      | JArr xs \<Rightarrow> zip (map (to_radix 10) [0..<length xs]) xs
      | JStr s \<Rightarrow> zip (map (to_radix 10) [0..<length s]) (map (\<lambda>c. JStr [c]) s)
      | _ \<Rightarrow> [])"

definition Object_assign :: "(string \<times> jsval) list \<Rightarrow> jsval \<Rightarrow> (string \<times> jsval) list" where
  "Object_assign target source = foldl (\<lambda>t (k, v). set_prop k v t) target (own_entries source)"

text \<open>
  The \<^verbatim>\<open>encode\<close> closure of \<^verbatim>\<open>EnrollmentClient\<close>. Its result is the value that the source
  hands to \<^verbatim>\<open>JSON.stringify\<close>; the frame on the wire is the JSON text of that value.
  \<^verbatim>\<open>
  if (env && typeof env.type === 'string') {
    if (env.type === 'Info_ManagerForEnroll' || env.type === 'Enrollment'
        || env.type === 'Info_Enrollment') {
      var body = Object.assign({ Method: env.type }, env.payload || {});
      return JSON.stringify(body);
    }
  }
  return JSON.stringify(env && (env.payload || env));
  \<close>
\<close>

definition coordinator_types :: "string list" where
  "coordinator_types = [''Info_ManagerForEnroll'', ''Enrollment'', ''Info_Enrollment'']"

definition encode :: "jsval \<Rightarrow> jsval" where
  "encode env =
     (if truthy env \<and> typeof (get_prop env ''type'') = ''string''
         \<and> get_prop env ''type'' \<in> JStr ` set coordinator_types
      then JObj (Object_assign [(''Method'', get_prop env ''type'')]
                   (js_or (get_prop env ''payload'') (JObj [])))
      else js_and env (js_or (get_prop env ''payload'') env))"

text \<open>
  The envelopes the transport builds: \<^verbatim>\<open>{ type: type, payload: payload }\<close> in \<^verbatim>\<open>send\<close>,
  \<^verbatim>\<open>{ type: type, id: id, payload: payload }\<close> in \<^verbatim>\<open>request\<close>.
\<close>

definition send_envelope :: "string \<Rightarrow> jsval \<Rightarrow> jsval" where
  "send_envelope ty payload = JObj [(''type'', JStr ty), (''payload'', payload)]"

definition request_envelope :: "string \<Rightarrow> string \<Rightarrow> jsval \<Rightarrow> jsval" where
  "request_envelope ty ident payload =
     JObj [(''type'', JStr ty), (''id'', JStr ident), (''payload'', payload)]"

subsection \<open>Decoder\<close>

text \<open>
  The data of a message event: text, a binary buffer (decoded by \<^verbatim>\<open>TextDecoder\<close>), or a
  \<^verbatim>\<open>Blob\<close>, on which \<^verbatim>\<open>TextDecoder.decode\<close> raises a TypeError.
\<close>

datatype raw_data = Text string | Buffer "nat list" | Blob

definition raw_text :: "host \<Rightarrow> raw_data \<Rightarrow> js_error + string" where
  "raw_text h raw =
     (case raw of
        Text s \<Rightarrow> Inr s
      | Buffer b \<Rightarrow> Inr (TextDecoder_decode h b)
      | Blob \<Rightarrow> Inl TypeError)"

text \<open>
  The tolerant parse at the head of \<^verbatim>\<open>decode\<close>: parse the text, wrap text that is not JSON
  as \<^verbatim>\<open>{ Message: rawStr }\<close>; a non-empty string result is trimmed and, when it looks like
  an object or an array, parsed again, otherwise wrapped.
\<close>

definition looks_json :: "string \<Rightarrow> bool" where
  "looks_json s =
     ((startsWith s ''{'' \<and> endsWith s ''}'') \<or> (startsWith s ''['' \<and> endsWith s '']''))"

definition wrap_message :: "string \<Rightarrow> jsval" where
  "wrap_message s = JObj [(''Message'', JStr s)]"

definition normalise :: "host \<Rightarrow> string \<Rightarrow> jsval" where
  "normalise h rawStr =
     (let msg = (case JSON_parse h rawStr of Some v \<Rightarrow> v | None \<Rightarrow> wrap_message rawStr)
      in if truthy msg \<and> typeof msg = ''string'' then
           (case msg of
              JStr s0 \<Rightarrow>
                (let s = trim s0 in
                 if looks_json s then
                   (case JSON_parse h s of Some v \<Rightarrow> v | None \<Rightarrow> wrap_message s)
                 else wrap_message s)
            | _ \<Rightarrow> msg)
         else msg)"

definition typed :: "string \<Rightarrow> jsval \<Rightarrow> jsval" where
  "typed ty payload = JObj [(''type'', JStr ty), (''payload'', payload)]"

text \<open>
  The constants that \<^verbatim>\<open>decode\<close> computes before its text rules:
  \<^verbatim>\<open>m = (typeof msg?.Message === 'string') ? msg.Message.trim() : ''\<close>,
  \<^verbatim>\<open>hex = m.startsWith('0x') ? m.slice(2) : m\<close> with
  \<^verbatim>\<open>is64Hex = /^[0-9a-fA-F]{64}$/.test(hex)\<close>, and
  \<^verbatim>\<open>hasTxField = !!(msg?.TxHash || msg?.txHash || msg?.txid || msg?.TxId || msg?.TransactionId)\<close>.
\<close>

definition message_text :: "jsval \<Rightarrow> string" where
  "message_text msg = (case get_prop msg ''Message'' of JStr t \<Rightarrow> trim t | _ \<Rightarrow> [])"

definition is_64_hex :: "string \<Rightarrow> bool" where
  "is_64_hex m =
     (let hex = (if startsWith m ''0x'' then drop 2 m else m)
      in length hex = 64 \<and> list_all is_hex_digit hex)"

definition has_tx_field :: "jsval \<Rightarrow> bool" where
  "has_tx_field msg =
     list_ex (\<lambda>k. truthy (get_prop msg k))
       [''TxHash'', ''txHash'', ''txid'', ''TxId'', ''TransactionId'']"

definition has_serial :: "jsval \<Rightarrow> bool" where
  "has_serial msg = (case get_prop msg ''SerialNumber'' of JStr sn \<Rightarrow> 0 < length sn | _ \<Rightarrow> False)"

text \<open>
  The classification chain of \<^verbatim>\<open>decode\<close> (from \<^verbatim>\<open>if (msg && typeof msg === 'object')\<close> to the
  final \<^verbatim>\<open>return { type: 'UNKNOWN', payload: msg }\<close>), in the order of the source. The
  second test reads \<^verbatim>\<open>msg.ParticipantsEnrolled\<close> outside the object guard, so it raises a
  TypeError on \<^verbatim>\<open>null\<close>.
\<close>

definition classify_text :: "jsval \<Rightarrow> jsval" where
  "classify_text msg =
     (let m = message_text msg;
          mUpper = toUpperCase m;
          is64Hex = is_64_hex m;
          hasTxField = has_tx_field msg
      in if mUpper = ''SUCCESS.ENROLL'' then typed ''ENROLLMENT_RESULT'' msg
         else if mUpper = ''SUCCESS.SIGNATURE_ADDED'' then typed ''SIGN_RESULT'' msg
         else if mUpper = ''SUCCESS.SIGNATURE_ENDED'' then typed ''SIGN_RESULT'' msg
         else if is64Hex \<or> hasTxField then typed ''SIGN_RESULT'' msg
         else if has_serial msg then typed ''SUCCESS.PIN_SERIAL'' msg
         else if 0 < length m \<and> mUpper \<noteq> ''ERROR.WRONG_PIN''
                 \<and> \<not> startsWith mUpper ''SUCCESS.SIGNATURE_''
                 \<and> mUpper \<noteq> ''SUCCESS.ENROLL'' \<and> \<not> is64Hex
           then typed ''SUCCESS.PIN_SERIAL'' (JObj [(''SerialNumber'', JStr m), (''Message'', JStr m)])
         else if mUpper = ''ERROR.WRONG_PIN'' then typed ''ERROR.WRONG_PIN'' msg
         else typed ''UNKNOWN'' msg)"

definition classify :: "host \<Rightarrow> jsval \<Rightarrow> js_error + jsval" where
  "classify h msg =
     (case (if truthy msg \<and> typeof msg = ''object''
            then loose_eq_zero h (get_prop msg ''ParticipantsEnrolled'')
            else Some False) of
        None \<Rightarrow> Inl TypeError
      | Some True \<Rightarrow> Inr (typed ''MANAGER_INFO'' msg)
      | Some False \<Rightarrow>
          if nullish msg then Inl TypeError
          else
            (case gt_zero h (get_prop msg ''ParticipantsEnrolled'') of
               None \<Rightarrow> Inl TypeError
             | Some True \<Rightarrow> Inr (typed ''ENROLLMENT_STATUS'' msg)
             | Some False \<Rightarrow> Inr (classify_text msg)))"

definition decode :: "host \<Rightarrow> raw_data \<Rightarrow> js_error + jsval" where
  "decode h raw =
     (case raw_text h raw of
        Inl e \<Rightarrow> Inl e
      | Inr rawStr \<Rightarrow> classify h (normalise h rawStr))"

subsection \<open>The decoder's rules as an ordered list\<close>



















subsection \<open>A host given by a table\<close>

text \<open>
  To run the decoder on concrete frames, \<open>table_host\<close> is a host whose \<^verbatim>\<open>JSON.parse\<close> is a
  finite table from texts to the values the built-in returns for them (every other text
  is rejected), whose \<^verbatim>\<open>TextDecoder\<close> reads one-byte characters, and whose number conversion
  is never reached by the frames below. \<open>sample_frames\<close> lists JSON texts with their values.
\<close>

definition ascii_text :: "nat list \<Rightarrow> string" where
  "ascii_text bytes = map char_of bytes"

definition table_host :: "(string \<times> jsval) list \<Rightarrow> host" where
  "table_host tbl = \<lparr>JSON_parse = map_of tbl, TextDecoder_decode = ascii_text, ToNumber = (\<lambda>v. None)\<rparr>"

definition sample_frames :: "(string \<times> jsval) list" where
  \<open>sample_frames =
     [(''{"ParticipantsEnrolled":0}'', JObj [(''ParticipantsEnrolled'', JNum (Fin 0))]),
      (''{"ParticipantsEnrolled":3}'', JObj [(''ParticipantsEnrolled'', JNum (Fin 3))]),
      (''{"SerialNumber":"ABC123"}'', JObj [(''SerialNumber'', JStr ''ABC123'')]),
      (''{"foo":"bar"}'', JObj [(''foo'', JStr ''bar'')]),
      (''{"ParticipantsEnrolled":false}'', JObj [(''ParticipantsEnrolled'', JBool False)]),
      (''null'', JNull),
      (''1111111111111111111111111111111111111111111111111111111111111111'',
         JNum (Fin 1111111111111111111111111111111111111111111111111111111111111111))]\<close>

section \<open>Reconnect backoff\<close>

text \<open>
  \<^verbatim>\<open>defaultBackoff(attempt)\<close> of the transport: \<^verbatim>\<open>base = 500 * Math.pow(2, attempt)\<close>,
  \<^verbatim>\<open>jitter = Math.floor(Math.random() * 250)\<close>, result \<^verbatim>\<open>Math.min(30000, base) + jitter\<close>.
  The value drawn from \<^verbatim>\<open>Math.random()\<close> is the parameter \<open>rnd\<close>; the attempt number is the
  transport's reconnect counter, a natural number. All intermediate values are integers
  (or, for large attempts, values above the cap), so the result is an integer number of
  milliseconds.
\<close>

definition defaultBackoff :: "real \<Rightarrow> nat \<Rightarrow> int" where
  "defaultBackoff rnd attempt =
     (let base = 500 * 2 ^ attempt;
          jitter = \<lfloor>rnd * 250\<rfloor>
      in min 30000 base + jitter)"

section \<open>Transport: \<open>ObjectSocket\<close>\<close>

text \<open>
  The transport is event driven: its methods and the callbacks it installs on the socket
  and on timers run one at a time, each to completion. The model is a state record and
  one total function per method or callback; \<open>step\<close> runs one event.

  What the host keeps for the transport is part of the state: the sockets created so far
  with their \<^verbatim>\<open>readyState\<close>, and the pending timers. What the outside can observe is
  appended to \<open>trace\<close>: promises created and settled (every call of a promise's
  \<^verbatim>\<open>resolve\<close> or \<^verbatim>\<open>reject\<close> is recorded), frames written with \<^verbatim>\<open>ws.send\<close>, lifecycle events
  passed to \<^verbatim>\<open>_emit\<close>, handlers invoked, and exceptions that leave a method.
\<close>

datatype ready_state = CONNECTING | OPEN | CLOSING | CLOSED

datatype promise = ConnectP nat | RequestP string | WaiterP nat

datatype outcome = Resolved jsval | Rejected js_error | RejectedReply jsval

datatype emit_arg = NoArg | HostEvent | Caught js_error | Reconnecting nat int

datatype effect =
    Created promise
  | Settled promise outcome
  | Sent nat jsval
  | Emitted string emit_arg
  | Invoked nat jsval
  | Thrown js_error

text \<open>
  Closures become data. A timer callback is one of the five closures the bundle passes
  to \<^verbatim>\<open>setTimeout\<close> and \<^verbatim>\<open>setInterval\<close>. A type handler is a callback of the application
  (\<open>UserFn\<close>: passed to \<^verbatim>\<open>onType\<close>; \<open>WrappedFn\<close>: passed to \<^verbatim>\<open>onManagerInfo\<close> and its
  siblings, which wrap it as \<^verbatim>\<open>function (p) { fn(p); }\<close>), described by what a call of it
  does: return, throw, or return a promise that is rejected later; or one of the closures
  of \<^verbatim>\<open>_sendAndWait\<close> and \<^verbatim>\<open>waitFor\<close>, which carry the handle of the timer created by the
  same call. A predicate of \<^verbatim>\<open>waitFor\<close> answers \<open>None\<close> where it throws.
\<close>

datatype behaviour = Returns | Throws | Rejects jsval

datatype handler_fn =
    UserFn "jsval \<Rightarrow> behaviour"
  | WrappedFn "jsval \<Rightarrow> behaviour"
  | SendWaitFn nat string bool
  | WaitStatusFn nat "jsval \<Rightarrow> bool option"
  | WaitResultFn nat

datatype timer_cb =
    RequestTimeout string string
  | ReconnectTimer
  | HeartbeatTick
  | SendWaitTimeout "string list"
  | WaitForTimeout

fun waiter_of :: "handler_fn \<Rightarrow> nat option" where
  "waiter_of (SendWaitFn w t m) = Some w"
| "waiter_of (WaitStatusFn w p) = Some w"
| "waiter_of (WaitResultFn w) = Some w"
| "waiter_of f = None"

fun is_request_timeout :: "timer_cb \<Rightarrow> bool" where
  "is_request_timeout (RequestTimeout i t) = True"
| "is_request_timeout cb = False"

text \<open>
  The options that stay fixed after construction. \<open>encode_opt\<close> maps an envelope to the
  value that is written as JSON; \<open>decode_opt\<close> answers \<open>Inl\<close> where the decoder throws.
  \<open>backoff\<close> takes the value that \<^verbatim>\<open>Math.random()\<close> returns during the call.
\<close>

record config =
  maxReconnects :: "nat option"
  backoff :: "real \<Rightarrow> nat \<Rightarrow> int"
  heartbeat_intervalMs :: int
  heartbeat_pingType :: string
  encode_opt :: "jsval \<Rightarrow> jsval"
  decode_opt :: "raw_data \<Rightarrow> js_error + jsval"
  tolerantDecode :: bool

record sock =
  autoReconnect :: bool
  ws :: "nat option"
  connected_flag :: bool
  reconnectAttempts :: nat
  heartbeatTimer :: "nat option"
  pending :: "(string \<times> nat) list"
  handlers :: "(string \<times> (nat \<times> handler_fn) list) list"
  idCounter :: nat
  sockets :: "ready_state list"
  timers :: "(nat \<times> int \<times> timer_cb) list"
  nextTimer :: nat
  nextHandler :: nat
  rejections :: "(jsval \<times> jsval) list"
  trace :: "effect list"

text \<open>
  The constructor: no socket, not connected, empty tables. Timer handles are positive
  numbers, never reused.
\<close>

definition init :: "bool \<Rightarrow> sock" where
  "init auto =
     \<lparr>autoReconnect = auto, ws = None, connected_flag = False, reconnectAttempts = 0,
      heartbeatTimer = None, pending = [], handlers = [], idCounter = 0, sockets = [],
      timers = [], nextTimer = 1, nextHandler = 0, rejections = [], trace = []\<rparr>"

subsection \<open>Maps, timers and effects\<close>

fun Map_set :: "'k \<Rightarrow> 'v \<Rightarrow> ('k \<times> 'v) list \<Rightarrow> ('k \<times> 'v) list" where
  "Map_set k v [] = [(k, v)]"
| "Map_set k v ((k', v') # m) = (if k = k' then (k, v) # m else (k', v') # Map_set k v m)"

definition Map_delete :: "'k \<Rightarrow> ('k \<times> 'v) list \<Rightarrow> ('k \<times> 'v) list" where
  "Map_delete k m = filter (\<lambda>kv. fst kv \<noteq> k) m"

definition log_effect :: "effect \<Rightarrow> sock \<Rightarrow> sock" where
  "log_effect e s = s\<lparr>trace := trace s @ [e]\<rparr>"

definition emit :: "string \<Rightarrow> emit_arg \<Rightarrow> sock \<Rightarrow> sock" where
  "emit name arg s = log_effect (Emitted name arg) s"

definition setTimeout :: "int \<Rightarrow> timer_cb \<Rightarrow> sock \<Rightarrow> sock" where
  "setTimeout ms cb s =
     s\<lparr>timers := timers s @ [(nextTimer s, ms, cb)], nextTimer := Suc (nextTimer s)\<rparr>"

definition clearTimeout :: "nat \<Rightarrow> sock \<Rightarrow> sock" where
  "clearTimeout t s = s\<lparr>timers := Map_delete t (timers s)\<rparr>"

definition ws_is_open :: "sock \<Rightarrow> bool" where
  "ws_is_open s =
     (case ws s of
        None \<Rightarrow> False
      | Some n \<Rightarrow> n < length (sockets s) \<and> sockets s ! n = OPEN)"

definition ws_send :: "jsval \<Rightarrow> sock \<Rightarrow> sock" where
  "ws_send frame s = (case ws s of None \<Rightarrow> s | Some n \<Rightarrow> log_effect (Sent n frame) s)"

definition handlers_of :: "sock \<Rightarrow> string \<Rightarrow> (nat \<times> handler_fn) list" where
  "handlers_of s ty = (case map_of (handlers s) ty of Some hs \<Rightarrow> hs | None \<Rightarrow> [])"

text \<open>
  \<^verbatim>\<open>onType\<close> adds a function to the set of its type; every call of the model registers a
  function object of its own. \<open>remove_waiter\<close> is what the unsubscribe functions kept by
  one call of \<^verbatim>\<open>_sendAndWait\<close> or \<^verbatim>\<open>waitFor\<close> do together: they delete that call's handlers.
\<close>

definition onType :: "string \<Rightarrow> handler_fn \<Rightarrow> sock \<Rightarrow> sock" where
  "onType ty f s =
     s\<lparr>handlers := Map_set ty (handlers_of s ty @ [(nextHandler s, f)]) (handlers s),
       nextHandler := Suc (nextHandler s)\<rparr>"

definition offType :: "string \<Rightarrow> nat \<Rightarrow> sock \<Rightarrow> sock" where
  "offType ty hid s =
     (case map_of (handlers s) ty of
        None \<Rightarrow> s
      | Some hs \<Rightarrow> s\<lparr>handlers := Map_set ty (Map_delete hid hs) (handlers s)\<rparr>)"

definition remove_waiter :: "nat \<Rightarrow> sock \<Rightarrow> sock" where
  "remove_waiter w s =
     s\<lparr>handlers := map (\<lambda>(ty, hs). (ty, filter (\<lambda>h. waiter_of (snd h) \<noteq> Some w) hs)) (handlers s)\<rparr>"

subsection \<open>Connection\<close>

text \<open>
  \<^verbatim>\<open>connect\<close>: the executor of the returned promise creates the socket and installs the four
  callbacks; the promise is rejected only by the \<^verbatim>\<open>catch\<close> around that, when the constructor
  throws (\<open>Some err\<close>). Every call takes the next slot of \<open>sockets\<close>, which also names its
  promise; the slot of a failed construction is never used.
\<close>

definition connect :: "js_error option \<Rightarrow> sock \<Rightarrow> sock" where
  "connect ctor s =
     (let n = length (sockets s);
          s1 = log_effect (Created (ConnectP n)) s
      in case ctor of
           None \<Rightarrow> s1\<lparr>sockets := sockets s1 @ [CONNECTING], ws := Some n\<rparr>
         | Some err \<Rightarrow>
             log_effect (Settled (ConnectP n) (Rejected err)) (s1\<lparr>sockets := sockets s1 @ [CLOSED]\<rparr>))"

definition startHeartbeat :: "config \<Rightarrow> sock \<Rightarrow> sock" where
  "startHeartbeat cfg s =
     (if heartbeat_intervalMs cfg = 0 then s
      else (setTimeout (heartbeat_intervalMs cfg) HeartbeatTick s)\<lparr>heartbeatTimer := Some (nextTimer s)\<rparr>)"

definition clearHeartbeat :: "sock \<Rightarrow> sock" where
  "clearHeartbeat s =
     (case heartbeatTimer s of
        None \<Rightarrow> s
      | Some t \<Rightarrow> (clearTimeout t s)\<lparr>heartbeatTimer := None\<rparr>)"

definition on_open :: "config \<Rightarrow> nat \<Rightarrow> sock \<Rightarrow> sock" where
  "on_open cfg n s =
     (if n < length (sockets s) \<and> sockets s ! n = CONNECTING then
        (let s1 = s\<lparr>sockets := (sockets s)[n := OPEN], connected_flag := True, reconnectAttempts := 0\<rparr>;
             s2 = emit ''connected'' NoArg s1;
             s3 = startHeartbeat cfg s2
         in log_effect (Settled (ConnectP n) (Resolved JUndefined)) s3)
      else s)"

definition on_error :: "nat \<Rightarrow> sock \<Rightarrow> sock" where
  "on_error n s =
     (if n < length (sockets s) \<and> sockets s ! n \<noteq> CLOSED then emit ''error'' HostEvent s else s)"

text \<open>
  \<^verbatim>\<open>_failAllPending\<close> walks the pending map: cancel the timer, reject, delete.
\<close>

fun fail_loop :: "js_error \<Rightarrow> (string \<times> nat) list \<Rightarrow> sock \<Rightarrow> sock" where
  "fail_loop err [] s = s"
| "fail_loop err ((ident, t) # ps) s =
     fail_loop err ps
       (let s1 = clearTimeout t s;
            s2 = log_effect (Settled (RequestP ident) (Rejected err)) s1
        in s2\<lparr>pending := Map_delete ident (pending s2)\<rparr>)"

definition failAllPending :: "js_error \<Rightarrow> sock \<Rightarrow> sock" where
  "failAllPending err s = fail_loop err (pending s) s"

definition scheduleReconnect :: "config \<Rightarrow> real \<Rightarrow> sock \<Rightarrow> sock" where
  "scheduleReconnect cfg rnd s =
     (if (case maxReconnects cfg of None \<Rightarrow> False | Some m \<Rightarrow> m \<le> reconnectAttempts s) then s
      else
        (let attempt = reconnectAttempts s;
             s1 = s\<lparr>reconnectAttempts := Suc attempt\<rparr>;
             delay = backoff cfg rnd attempt;
             s2 = emit ''reconnecting'' (Reconnecting attempt delay) s1
         in setTimeout delay ReconnectTimer s2))"

definition on_close :: "config \<Rightarrow> nat \<Rightarrow> real \<Rightarrow> sock \<Rightarrow> sock" where
  "on_close cfg n rnd s =
     (if n < length (sockets s) \<and> sockets s ! n \<noteq> CLOSED then
        (let s0 = s\<lparr>sockets := (sockets s)[n := CLOSED]\<rparr>;
             wasConnected = connected_flag s0;
             s1 = s0\<lparr>connected_flag := False\<rparr>;
             s2 = clearHeartbeat s1;
             s3 = emit ''disconnected'' HostEvent s2;
             s4 = (if wasConnected then failAllPending (Error ''socket closed'') s3 else s3)
         in if autoReconnect s4 then scheduleReconnect cfg rnd s4 else s4)
      else s)"

text \<open>\<^verbatim>\<open>close\<close>: switch reconnection off, start closing the current socket, stop the heartbeat.\<close>

definition close :: "sock \<Rightarrow> sock" where
  "close s =
     (let s1 = s\<lparr>autoReconnect := False\<rparr>;
          s2 = (case ws s1 of
                  None \<Rightarrow> s1
                | Some n \<Rightarrow>
                    if n < length (sockets s1) \<and> sockets s1 ! n \<in> {CONNECTING, OPEN}
                    then s1\<lparr>sockets := (sockets s1)[n := CLOSING]\<rparr> else s1)
      in clearHeartbeat s2)"

subsection \<open>Sending and requests\<close>

definition send :: "config \<Rightarrow> string \<Rightarrow> jsval \<Rightarrow> sock \<Rightarrow> sock" where
  "send cfg ty payload s =
     (if \<not> ws_is_open s then log_effect (Thrown (Error ''socket not open'')) s
      else ws_send (encode_opt cfg (send_envelope ty payload)) s)"

text \<open>
  \<^verbatim>\<open>_nextId\<close>: \<^verbatim>\<open>Date.now().toString(36) + '-' + this._idCounter.toString(36)\<close> after the counter
  is incremented; the clock reading is an argument of the call.
\<close>

definition mk_id :: "nat \<Rightarrow> nat \<Rightarrow> string" where
  "mk_id now c = to_radix 36 now @ ''-'' @ to_radix 36 c"

definition request :: "config \<Rightarrow> string \<Rightarrow> jsval \<Rightarrow> int option \<Rightarrow> nat \<Rightarrow> sock \<Rightarrow> sock" where
  "request cfg ty payload timeoutMs now s =
     (if \<not> ws_is_open s then log_effect (Thrown (Error ''socket not open'')) s
      else
        (let c = Suc (idCounter s);
             ident = mk_id now c;
             raw = encode_opt cfg (request_envelope ty ident payload);
             to = (case timeoutMs of Some ms \<Rightarrow> ms | None \<Rightarrow> 15000);
             s1 = log_effect (Created (RequestP ident)) (s\<lparr>idCounter := c\<rparr>);
             t = nextTimer s1;
             s2 = setTimeout to (RequestTimeout ident ty) s1;
             s3 = s2\<lparr>pending := Map_set ident t (pending s2)\<rparr>
         in ws_send raw s3))"

subsection \<open>Inbound messages\<close>

definition str_of :: "jsval \<Rightarrow> string" where
  "str_of v = (case v of JStr s \<Rightarrow> s | _ \<Rightarrow> [])"

text \<open>
  \<^verbatim>\<open>_sendReply(to, payload, error)\<close>: nothing without a truthy \<^verbatim>\<open>to.id\<close>, nothing unless the
  socket is open.
\<close>

definition sendReply :: "config \<Rightarrow> jsval \<Rightarrow> jsval \<Rightarrow> jsval \<Rightarrow> sock \<Rightarrow> sock" where
  "sendReply cfg to payload err s =
     (if \<not> truthy (get_prop to ''id'') then s
      else if \<not> ws_is_open s then s
      else ws_send (encode_opt cfg
             (JObj [(''type'', JStr (str_of (get_prop to ''type'') @ '':REPLY'')),
                    (''replyTo'', get_prop to ''id''),
                    (''payload'', payload), (''error'', err)])) s)"

definition replyError :: "config \<Rightarrow> jsval \<Rightarrow> jsval \<Rightarrow> sock \<Rightarrow> sock" where
  "replyError cfg env message s =
     sendReply cfg env JUndefined
       (JObj [(''message'', message), (''code'', JUndefined), (''details'', JUndefined)]) s"

definition unsubscribe_all :: "nat \<Rightarrow> sock \<Rightarrow> sock" where
  "unsubscribe_all w s = remove_waiter w (clearTimeout w s)"

text \<open>
  One handler call inside \<^verbatim>\<open>set.forEach\<close> of \<^verbatim>\<open>_handleMessage\<close>:
  \<^verbatim>\<open>try { Promise.resolve(handler(env.payload, ctx)).catch(...) } catch (e) { ctx.replyError('handler threw') }\<close>.
  A promise that the handler returns is rejected, if at all, after the loop: the
  rejection waits in \<open>rejections\<close>.
\<close>

fun invoke :: "config \<Rightarrow> jsval \<Rightarrow> nat \<times> handler_fn \<Rightarrow> sock \<Rightarrow> sock" where
  "invoke cfg env (hid, UserFn f) s =
     (let s1 = log_effect (Invoked hid (get_prop env ''payload'')) s
      in case f (get_prop env ''payload'') of
           Returns \<Rightarrow> s1
         | Throws \<Rightarrow> replyError cfg env (JStr ''handler threw'') s1
         | Rejects e \<Rightarrow> s1\<lparr>rejections := rejections s1 @ [(env, e)]\<rparr>)"
| "invoke cfg env (hid, WrappedFn f) s =
     (let s1 = log_effect (Invoked hid (get_prop env ''payload'')) s
      in case f (get_prop env ''payload'') of
           Throws \<Rightarrow> replyError cfg env (JStr ''handler threw'') s1
         | _ \<Rightarrow> s1)"
| "invoke cfg env (hid, SendWaitFn w t isMulti) s =
     (let p = get_prop env ''payload'';
          s1 = log_effect (Invoked hid p) s;
          s2 = unsubscribe_all w s1
      in log_effect (Settled (WaiterP w)
           (Resolved (if isMulti then JObj [(''type'', JStr t), (''payload'', p)] else p))) s2)"
| "invoke cfg env (hid, WaitStatusFn w predicate) s =
     (let p = get_prop env ''payload'';
          s1 = log_effect (Invoked hid p) s
      in case predicate p of
           Some True \<Rightarrow> log_effect (Settled (WaiterP w) (Resolved p)) (unsubscribe_all w s1)
         | _ \<Rightarrow> s1)"
| "invoke cfg env (hid, WaitResultFn w) s =
     (let p = get_prop env ''payload'';
          s1 = log_effect (Invoked hid p) s
      in log_effect (Settled (WaiterP w) (Resolved p)) (unsubscribe_all w s1))"

text \<open>
  \<^verbatim>\<open>set.forEach\<close> visits the handlers in insertion order and skips one that was deleted
  before its turn.
\<close>

fun dispatch_loop :: "config \<Rightarrow> jsval \<Rightarrow> string \<Rightarrow> (nat \<times> handler_fn) list \<Rightarrow> sock \<Rightarrow> sock" where
  "dispatch_loop cfg env ty [] s = s"
| "dispatch_loop cfg env ty (h # hs) s =
     dispatch_loop cfg env ty hs
       (if fst h \<in> fst ` set (handlers_of s ty) then invoke cfg env h s else s)"

definition pending_get :: "sock \<Rightarrow> jsval \<Rightarrow> (string \<times> nat) option" where
  "pending_get s key =
     (case key of
        JStr k \<Rightarrow> (case map_of (pending s) k of Some t \<Rightarrow> Some (k, t) | None \<Rightarrow> None)
      | _ \<Rightarrow> None)"

definition handleMessage :: "config \<Rightarrow> raw_data \<Rightarrow> sock \<Rightarrow> sock" where
  "handleMessage cfg data s =
     (case decode_opt cfg data of
        Inl e \<Rightarrow> if tolerantDecode cfg then emit ''error'' (Caught e) s else log_effect (Thrown e) s
      | Inr env \<Rightarrow>
          if \<not> truthy env \<or> typeof (get_prop env ''type'') \<noteq> ''string'' then s
          else if truthy (get_prop env ''replyTo'') then
            (case pending_get s (get_prop env ''replyTo'') of
               None \<Rightarrow> s
             | Some (ident, t) \<Rightarrow>
                 (let s1 = clearTimeout t s;
                      s2 = s1\<lparr>pending := Map_delete ident (pending s1)\<rparr>
                  in if truthy (get_prop env ''error'')
                     then log_effect (Settled (RequestP ident) (RejectedReply (get_prop env ''error''))) s2
                     else log_effect (Settled (RequestP ident) (Resolved (get_prop env ''payload''))) s2))
          else dispatch_loop cfg env (str_of (get_prop env ''type''))
                 (handlers_of s (str_of (get_prop env ''type''))) s)"

definition on_message :: "config \<Rightarrow> nat \<Rightarrow> raw_data \<Rightarrow> sock \<Rightarrow> sock" where
  "on_message cfg n data s =
     (if n < length (sockets s) \<and> sockets s ! n \<in> {OPEN, CLOSING} then handleMessage cfg data s else s)"

text \<open>
  The \<^verbatim>\<open>.catch\<close> callback of a handler's promise:
  \<^verbatim>\<open>ctx.replyError(e && e.message ? e.message : 'handler error')\<close>.
\<close>

definition run_rejection :: "config \<Rightarrow> nat \<Rightarrow> sock \<Rightarrow> sock" where
  "run_rejection cfg i s =
     (if i < length (rejections s) then
        (let env = fst (rejections s ! i);
             e = snd (rejections s ! i);
             s1 = s\<lparr>rejections := take i (rejections s) @ drop (Suc i) (rejections s)\<rparr>
         in replyError cfg env
              (if truthy e \<and> truthy (get_prop e ''message'') then get_prop e ''message''
               else JStr ''handler error'') s1)
      else s)"

subsection \<open>Default options\<close>

text \<open>
  Without options the transport writes the envelope itself as JSON (\<^verbatim>\<open>jsonEncode\<close>), reads a
  frame with \<^verbatim>\<open>JSON.parse\<close> (\<^verbatim>\<open>jsonDecode\<close>; a \<^verbatim>\<open>Blob\<close> is read through \<^verbatim>\<open>String(raw)\<close>, which is
  not JSON), pings every 25 s, decodes tolerantly and reconnects without bound.
\<close>

definition jsonDecode :: "host \<Rightarrow> raw_data \<Rightarrow> js_error + jsval" where
  "jsonDecode h raw =
     (let parse = (\<lambda>t. case JSON_parse h t of None \<Rightarrow> Inl SyntaxError | Some v \<Rightarrow> Inr v)
      in case raw of
           Text t \<Rightarrow> parse t
         | Buffer b \<Rightarrow> parse (TextDecoder_decode h b)
         | Blob \<Rightarrow> Inl SyntaxError)"

definition default_config :: "host \<Rightarrow> config" where
  "default_config h =
     \<lparr>maxReconnects = None, backoff = defaultBackoff, heartbeat_intervalMs = 25000,
      heartbeat_pingType = ''PING'', encode_opt = (\<lambda>env. env), decode_opt = jsonDecode h,
      tolerantDecode = True\<rparr>"

text \<open>Whether \<^verbatim>\<open>_scheduleReconnect\<close> is reached and goes past its bound check.\<close>

definition reconnect_due :: "config \<Rightarrow> sock \<Rightarrow> bool" where
  "reconnect_due cfg s =
     (autoReconnect s \<and> (case maxReconnects cfg of None \<Rightarrow> True | Some m \<Rightarrow> reconnectAttempts s < m))"

section \<open>Workflow client: \<open>EnrollmentClient\<close>\<close>

definition CHECKPIN_TIMEOUT :: int where "CHECKPIN_TIMEOUT = 300000"
definition SENDSTATUS_TIMEOUT :: int where "SENDSTATUS_TIMEOUT = 10000"
definition DEFAULT_ENROLL_WAITFOR_TIMEOUT :: int where "DEFAULT_ENROLL_WAITFOR_TIMEOUT = 300000"
definition SIGNATURE_TIMEOUT :: int where "SIGNATURE_TIMEOUT = 300000"

text \<open>
  The options with which the client constructs its transport: its own \<^verbatim>\<open>encode\<close> and
  \<^verbatim>\<open>decode\<close>, heartbeat interval 0, tolerant decoding, no bound on reconnects, the default
  backoff.
\<close>

definition enrollment_config :: "host \<Rightarrow> config" where
  "enrollment_config h =
     \<lparr>maxReconnects = None, backoff = defaultBackoff, heartbeat_intervalMs = 0,
      heartbeat_pingType = ''PING'', encode_opt = encode, decode_opt = decode h,
      tolerantDecode = True\<rparr>"

definition join_or :: "string list \<Rightarrow> string" where
  "join_or xs = (case xs of [] \<Rightarrow> [] | x # r \<Rightarrow> foldl (\<lambda>a b. a @ '' or '' @ b) x r)"

text \<open>
  \<^verbatim>\<open>_sendAndWait(type, payload, expectType, timeoutMs)\<close>: \<^verbatim>\<open>this.sock.send\<close> first (which
  throws on a socket that is not open), then the promise: its timer, then one handler per
  expected type.
\<close>

definition sendAndWait :: "config \<Rightarrow> string \<Rightarrow> jsval \<Rightarrow> string list \<Rightarrow> int \<Rightarrow> sock \<Rightarrow> sock" where
  "sendAndWait cfg ty payload expectList timeoutMs s =
     (if \<not> ws_is_open s then log_effect (Thrown (Error ''socket not open'')) s
      else
        (let s1 = ws_send (encode_opt cfg (send_envelope ty payload)) s;
             isMulti = (1 < length expectList);
             w = nextTimer s1;
             s2 = log_effect (Created (WaiterP w)) s1;
             s3 = setTimeout timeoutMs (SendWaitTimeout expectList) s2
         in foldl (\<lambda>st t. onType t (SendWaitFn w t isMulti) st) s3 expectList))"

definition requestManagerInfo :: "config \<Rightarrow> jsval \<Rightarrow> sock \<Rightarrow> sock" where
  "requestManagerInfo cfg params = sendAndWait cfg ''Info_Enrollment'' params [''MANAGER_INFO''] 60000"

definition enroll :: "config \<Rightarrow> jsval \<Rightarrow> sock \<Rightarrow> sock" where
  "enroll cfg params = sendAndWait cfg ''Enrollment'' params [''ENROLLMENT_RESULT''] 200000"

definition sign :: "config \<Rightarrow> jsval \<Rightarrow> sock \<Rightarrow> sock" where
  "sign cfg params =
     sendAndWait cfg ''Sign'' params
       [''SIGN_RESULT'', ''SUCCESS.SIGNATURE_ADDED'', ''SUCCESS.SIGNATURE_ENDED''] SIGNATURE_TIMEOUT"

definition sendStatus :: "config \<Rightarrow> jsval \<Rightarrow> sock \<Rightarrow> sock" where
  "sendStatus cfg params =
     sendAndWait cfg ''Info_Enrollment'' params [''ENROLLMENT_STATUS''] SENDSTATUS_TIMEOUT"

definition checkPIN :: "config \<Rightarrow> jsval \<Rightarrow> sock \<Rightarrow> sock" where
  "checkPIN cfg params =
     sendAndWait cfg ''CheckPIN'' params [''SUCCESS.PIN_SERIAL'', ''ERROR.WRONG_PIN''] CHECKPIN_TIMEOUT"

text \<open>
  \<^verbatim>\<open>waitFor(predicate, cfg)\<close>: the timer, then the status handler, then the result handler.
\<close>

definition waitFor :: "(jsval \<Rightarrow> bool option) \<Rightarrow> int option \<Rightarrow> sock \<Rightarrow> sock" where
  "waitFor predicate timeoutMs s =
     (let ms = (case timeoutMs of None \<Rightarrow> DEFAULT_ENROLL_WAITFOR_TIMEOUT | Some t \<Rightarrow> t);
          w = nextTimer s;
          s1 = log_effect (Created (WaiterP w)) s;
          s2 = setTimeout ms WaitForTimeout s1;
          s3 = onType ''ENROLLMENT_STATUS'' (WaitStatusFn w predicate) s2
      in onType ''ENROLLMENT_RESULT'' (WaitResultFn w) s3)"

section \<open>Timers and events\<close>

text \<open>
  A timer that fires runs its callback; a timer that was cleared, or a timeout that
  fired before, is not in \<open>timers\<close> and does nothing. The reconnect timer calls \<^verbatim>\<open>connect\<close>,
  whose socket construction succeeds or throws as the event says.
\<close>

definition timer_fires :: "config \<Rightarrow> nat \<Rightarrow> js_error option \<Rightarrow> sock \<Rightarrow> sock" where
  "timer_fires cfg t ctor s =
     (case map_of (timers s) t of
        None \<Rightarrow> s
      | Some (ms, cb) \<Rightarrow>
          (case cb of
             RequestTimeout ident ty \<Rightarrow>
               (let s1 = clearTimeout t s;
                    s2 = s1\<lparr>pending := Map_delete ident (pending s1)\<rparr>
                in log_effect (Settled (RequestP ident)
                     (Rejected (Error (''request timeout for '' @ ty @ '' ('' @ ident @ '')'')))) s2)
           | ReconnectTimer \<Rightarrow> connect ctor (clearTimeout t s)
           | HeartbeatTick \<Rightarrow>
               if ws_is_open s
               then ws_send (encode_opt cfg
                      (JObj [(''type'', JStr (if heartbeat_pingType cfg = [] then ''PING''
                                               else heartbeat_pingType cfg))])) s
               else s
           | SendWaitTimeout expectList \<Rightarrow>
               log_effect (Settled (WaiterP t)
                 (Rejected (Error (''timeout waiting for '' @ join_or expectList))))
                 (unsubscribe_all t (clearTimeout t s))
           | WaitForTimeout \<Rightarrow>
               log_effect (Settled (WaiterP t) (Rejected (Error ''waitFor timeout'')))
                 (unsubscribe_all t (clearTimeout t s))))"

datatype client_call =
    RequestManagerInfo jsval
  | Enroll jsval
  | Sign jsval
  | SendStatus jsval
  | CheckPIN jsval
  | WaitFor "jsval \<Rightarrow> bool option" "int option"
  | OnEvent string "jsval \<Rightarrow> behaviour"

datatype event =
    CallConnect "js_error option"
  | CallClose
  | CallSend string jsval
  | CallRequest string jsval "int option" nat
  | CallOnType string "jsval \<Rightarrow> behaviour"
  | CallOffType string nat
  | Client client_call
  | WsOpen nat
  | WsMessage nat raw_data
  | WsError nat
  | WsClose nat real
  | TimerFires nat "js_error option"
  | RejectionRuns nat

fun client_step :: "config \<Rightarrow> client_call \<Rightarrow> sock \<Rightarrow> sock" where
  "client_step cfg (RequestManagerInfo p) s = requestManagerInfo cfg p s"
| "client_step cfg (Enroll p) s = enroll cfg p s"
| "client_step cfg (Sign p) s = sign cfg p s"
| "client_step cfg (SendStatus p) s = sendStatus cfg p s"
| "client_step cfg (CheckPIN p) s = checkPIN cfg p s"
| "client_step cfg (WaitFor predicate ms) s = waitFor predicate ms s"
| "client_step cfg (OnEvent ty f) s = onType ty (WrappedFn f) s"

fun step :: "config \<Rightarrow> event \<Rightarrow> sock \<Rightarrow> sock" where
  "step cfg (CallConnect ctor) s = connect ctor s"
| "step cfg CallClose s = close s"
| "step cfg (CallSend ty p) s = send cfg ty p s"
| "step cfg (CallRequest ty p ms now) s = request cfg ty p ms now s"
| "step cfg (CallOnType ty f) s = onType ty (UserFn f) s"
| "step cfg (CallOffType ty hid) s = offType ty hid s"
| "step cfg (Client c) s = client_step cfg c s"
| "step cfg (WsOpen n) s = on_open cfg n s"
| "step cfg (WsMessage n data) s = on_message cfg n data s"
| "step cfg (WsError n) s = on_error n s"
| "step cfg (WsClose n rnd) s = on_close cfg n rnd s"
| "step cfg (TimerFires t ctor) s = timer_fires cfg t ctor s"
| "step cfg (RejectionRuns i) s = run_rejection cfg i s"

definition run :: "config \<Rightarrow> event list \<Rightarrow> sock \<Rightarrow> sock" where
  "run cfg evs s = foldl (\<lambda>st e. step cfg e st) s evs"

subsection \<open>Reading the trace\<close>

definition settlements :: "sock \<Rightarrow> promise \<Rightarrow> outcome list" where
  "settlements s p = concat (map (\<lambda>e. case e of Settled q out \<Rightarrow> if q = p then [out] else [] | _ \<Rightarrow> []) (trace s))"

definition created :: "sock \<Rightarrow> promise \<Rightarrow> bool" where
  "created s p = (Created p \<in> set (trace s))"

definition timer_active :: "sock \<Rightarrow> nat \<Rightarrow> bool" where
  "timer_active s t = (map_of (timers s) t \<noteq> None)"

section \<open>Invariants of the transport\<close>

text \<open>
  What holds in every state that the events can reach. Timer handles are distinct and
  below the next handle, and the heartbeat handle names no other kind of timer. A request
  that was issued is either pending with its timeout timer running and no settlement, or
  gone from the pending map with exactly one settlement. A call of \<^verbatim>\<open>_sendAndWait\<close> or
  \<^verbatim>\<open>waitFor\<close> is either waiting, with its timer running and no settlement, or settled
  exactly once with its timer and its handlers gone. Handlers of one type are distinct
  and belong to different calls.
\<close>

fun is_waiter_timeout :: "timer_cb \<Rightarrow> bool" where
  "is_waiter_timeout (SendWaitTimeout e) = True"
| "is_waiter_timeout WaitForTimeout = True"
| "is_waiter_timeout cb = False"

definition subscribed :: "sock \<Rightarrow> nat \<Rightarrow> bool" where
  "subscribed s w =
     list_ex (\<lambda>kv. list_ex (\<lambda>h. waiter_of (snd h) = Some w) (handlers_of s (fst kv))) (handlers s)"

definition inv_timers :: "sock \<Rightarrow> bool" where
  "inv_timers s \<longleftrightarrow>
     distinct (map fst (timers s))
     \<and> (\<forall>e\<in>set (timers s). fst e < nextTimer s)
     \<and> (\<forall>t. heartbeatTimer s = Some t \<longrightarrow>
            t < nextTimer s \<and> (\<forall>e\<in>set (timers s). fst e = t \<longrightarrow> snd (snd e) = HeartbeatTick))"

definition request_ok :: "sock \<Rightarrow> string \<Rightarrow> bool" where
  "request_ok s i \<longleftrightarrow>
     (\<exists>now c. i = mk_id now c \<and> c \<le> idCounter s)
     \<and> ((\<exists>t d ty. (i, t) \<in> set (pending s) \<and> (t, d, RequestTimeout i ty) \<in> set (timers s))
          \<and> settlements s (RequestP i) = []
        \<or> i \<notin> fst ` set (pending s) \<and> length (settlements s (RequestP i)) = 1)"

definition inv_requests :: "sock \<Rightarrow> bool" where
  "inv_requests s \<longleftrightarrow>
     distinct (map fst (pending s))
     \<and> (\<forall>i. created s (RequestP i) \<longrightarrow> request_ok s i)
     \<and> (\<forall>i. \<not> created s (RequestP i) \<longrightarrow>
            settlements s (RequestP i) = [] \<and> i \<notin> fst ` set (pending s))
     \<and> (\<forall>e\<in>set (timers s). \<forall>i ty. snd (snd e) = RequestTimeout i ty \<longrightarrow> (i, fst e) \<in> set (pending s))"

definition waiter_ok :: "sock \<Rightarrow> nat \<Rightarrow> bool" where
  "waiter_ok s w \<longleftrightarrow>
     w < nextTimer s
     \<and> ((\<exists>d cb. (w, d, cb) \<in> set (timers s) \<and> is_waiter_timeout cb)
          \<and> settlements s (WaiterP w) = []
        \<or> w \<notin> fst ` set (timers s) \<and> length (settlements s (WaiterP w)) = 1 \<and> \<not> subscribed s w)"

definition inv_waiters :: "sock \<Rightarrow> bool" where
  "inv_waiters s \<longleftrightarrow>
     (\<forall>w. created s (WaiterP w) \<longrightarrow> waiter_ok s w)
     \<and> (\<forall>w. \<not> created s (WaiterP w) \<longrightarrow> settlements s (WaiterP w) = [] \<and> \<not> subscribed s w)
     \<and> (\<forall>e\<in>set (timers s). is_waiter_timeout (snd (snd e)) \<longrightarrow> created s (WaiterP (fst e)))"

definition inv_handlers :: "sock \<Rightarrow> bool" where
  "inv_handlers s \<longleftrightarrow>
     (\<forall>ty. distinct (map fst (handlers_of s ty))
        \<and> (\<forall>h\<in>set (handlers_of s ty). fst h < nextHandler s)
        \<and> (\<forall>h\<in>set (handlers_of s ty). \<forall>h'\<in>set (handlers_of s ty).
              waiter_of (snd h) = waiter_of (snd h') \<longrightarrow> waiter_of (snd h) \<noteq> None \<longrightarrow> h = h'))"

definition invariant :: "sock \<Rightarrow> bool" where
  "invariant s \<longleftrightarrow> inv_timers s \<and> inv_requests s \<and> inv_waiters s \<and> inv_handlers s"

section \<open>Reading the states\<close>

subsection \<open>Identifiers read back\<close>

text \<open>
  The inverse of \<open>to_radix\<close> on the digits \<^verbatim>\<open>0-9a-z\<close>: it recovers the counter from an
  identifier, which is why two identifiers with different counters differ.
\<close>

definition digit_val :: "char \<Rightarrow> nat" where
  "digit_val c = (let n = (of_char c :: nat) in if n < 58 then n - 48 else n - 87)"

definition from_radix :: "nat \<Rightarrow> string \<Rightarrow> nat" where
  "from_radix b s = foldl (\<lambda>acc c. acc * b + digit_val c) 0 s"

subsection \<open>Effects by kind\<close>

text \<open>
  \<open>settled_by p e\<close> is the outcome that the effect \<open>e\<close> gives to the promise \<open>p\<close>, if any.
  An effect is \<open>quiet\<close> when it neither creates nor settles the promise of a request or of a
  waiter. \<open>adds P s s'\<close> says that the trace of \<open>s'\<close> is the trace of \<open>s\<close> followed by effects
  that all satisfy \<open>P\<close>. \<open>same_core s s'\<close> says that \<open>s'\<close> agrees with \<open>s\<close> on everything the
  invariants read. A timer is plain when it is the heartbeat or the reconnect timer.
\<close>

definition settled_by :: "promise \<Rightarrow> effect \<Rightarrow> outcome list" where
  "settled_by p e = (case e of Settled q out \<Rightarrow> if q = p then [out] else [] | _ \<Rightarrow> [])"

fun quiet :: "effect \<Rightarrow> bool" where
  "quiet (Created (RequestP i)) = False"
| "quiet (Created (WaiterP w)) = False"
| "quiet (Settled (RequestP i) out) = False"
| "quiet (Settled (WaiterP w) out) = False"
| "quiet e = True"

fun settles_request :: "effect \<Rightarrow> bool" where
  "settles_request (Settled (RequestP i) out) = True"
| "settles_request e = False"

fun settles_waiter :: "effect \<Rightarrow> bool" where
  "settles_waiter (Settled (WaiterP w) out) = True"
| "settles_waiter e = False"

definition adds :: "(effect \<Rightarrow> bool) \<Rightarrow> sock \<Rightarrow> sock \<Rightarrow> bool" where
  "adds P s s' \<longleftrightarrow> (\<exists>xs. trace s' = trace s @ xs \<and> list_all P xs)"

definition same_core :: "sock \<Rightarrow> sock \<Rightarrow> bool" where
  "same_core s s' \<longleftrightarrow>
     timers s' = timers s \<and> nextTimer s' = nextTimer s \<and> heartbeatTimer s' = heartbeatTimer s
     \<and> pending s' = pending s \<and> idCounter s' = idCounter s \<and> handlers s' = handlers s
     \<and> nextHandler s' = nextHandler s
     \<and> (\<forall>i. settlements s' (RequestP i) = settlements s (RequestP i))
     \<and> (\<forall>w. settlements s' (WaiterP w) = settlements s (WaiterP w))
     \<and> (\<forall>i. created s' (RequestP i) = created s (RequestP i))
     \<and> (\<forall>w. created s' (WaiterP w) = created s (WaiterP w))"

definition plain_timer :: "timer_cb \<Rightarrow> bool" where
  "plain_timer cb \<longleftrightarrow> \<not> is_request_timeout cb \<and> \<not> is_waiter_timeout cb"

subsection \<open>Requests\<close>

text \<open>
  \<open>request_paths cfg e s i\<close> is the settlement that the event \<open>e\<close> brings to a request \<open>i\<close>
  that is pending in \<open>s\<close>, on the three paths the specification names: a frame that decodes
  to a reply to \<open>i\<close>, the timeout timer of \<open>i\<close>, and the close of a socket while the
  transport is connected. \<open>request_timer s i\<close> says that a timeout timer of \<open>i\<close> is set, and
  \<open>requests_of s\<close> lists the requests issued so far.
\<close>

definition request_paths :: "config \<Rightarrow> event \<Rightarrow> sock \<Rightarrow> string \<Rightarrow> outcome list" where
  "request_paths cfg e s i =
     (case e of
        WsMessage n data \<Rightarrow>
          (if n < length (sockets s) \<and> sockets s ! n \<in> {OPEN, CLOSING} then
             (case decode_opt cfg data of
                Inl err \<Rightarrow> []
              | Inr env \<Rightarrow>
                  if truthy env \<and> typeof (get_prop env ''type'') = ''string''
                     \<and> get_prop env ''replyTo'' = JStr i
                  then [if truthy (get_prop env ''error'') then RejectedReply (get_prop env ''error'')
                        else Resolved (get_prop env ''payload'')]
                  else [])
           else [])
      | TimerFires t ctor \<Rightarrow>
          (case map_of (timers s) t of
             Some (ms, RequestTimeout j ty) \<Rightarrow>
               if j = i then [Rejected (Error (''request timeout for '' @ ty @ '' ('' @ i @ '')''))]
               else []
           | _ \<Rightarrow> [])
      | WsClose n rnd \<Rightarrow>
          if n < length (sockets s) \<and> sockets s ! n \<noteq> CLOSED \<and> connected_flag s
          then [Rejected (Error ''socket closed'')] else []
      | _ \<Rightarrow> [])"

definition request_timer :: "sock \<Rightarrow> string \<Rightarrow> bool" where
  "request_timer s i =
     list_ex (\<lambda>e. case snd (snd e) of RequestTimeout j ty \<Rightarrow> j = i | _ \<Rightarrow> False) (timers s)"

definition requests_of :: "sock \<Rightarrow> string list" where
  "requests_of s = concat (map (\<lambda>e. case e of Created (RequestP i) \<Rightarrow> [i] | _ \<Rightarrow> []) (trace s))"

text \<open>
  A run with two requests: the reply to the first arrives twice, the second times out
  and its reply arrives late.
\<close>

definition reply_frames :: "(string \<times> jsval) list" where
  \<open>reply_frames =
     [(''{"type":"A:REPLY","replyTo":"rs-1","payload":"ok"}'',
         JObj [(''type'', JStr ''A:REPLY''), (''replyTo'', JStr ''rs-1''), (''payload'', JStr ''ok'')]),
      (''{"type":"B:REPLY","replyTo":"rt-2","error":{"message":"no"}}'',
         JObj [(''type'', JStr ''B:REPLY''), (''replyTo'', JStr ''rt-2''),
               (''error'', JObj [(''message'', JStr ''no'')])])]\<close>

definition two_requests :: "event list" where
  \<open>two_requests =
     [CallRequest ''B'' JNull None 1001,
      WsMessage 0 (Text ''{"type":"A:REPLY","replyTo":"rs-1","payload":"ok"}''),
      WsMessage 0 (Text ''{"type":"A:REPLY","replyTo":"rs-1","payload":"ok"}''),
      TimerFires 3 None,
      WsMessage 0 (Text ''{"type":"B:REPLY","replyTo":"rt-2","error":{"message":"no"}}'')]\<close>

section \<open>Properties\<close>

subsection \<open>Backoff bounds\<close>




subsection \<open>Decoder\<close>


































subsection \<open>Encoder\<close>










subsection \<open>A frame that parses to null\<close>

lemma decode_null:
  assumes "JSON_parse h t = Some JNull"
  shows "decode h (Text t) = Inl TypeError"
  using assms by (simp add: decode_def raw_text_def normalise_def classify_def nullish_def)

text \<open>
  Claim C10. A frame whose text \<^verbatim>\<open>JSON.parse\<close> reads as \<^verbatim>\<open>null\<close> makes \<^verbatim>\<open>decode\<close> raise a
  TypeError (the test \<^verbatim>\<open>msg.ParticipantsEnrolled > 0\<close> stands outside the object guard); the
  client decodes tolerantly, so \<^verbatim>\<open>_handleMessage\<close> only emits the \<^verbatim>\<open>error\<close> lifecycle event:
  no handler is invoked and no classified event, not even \<^verbatim>\<open>UNKNOWN\<close>, is dispatched.
\<close>

theorem null_frame_surfaces_error:
  assumes "JSON_parse h t = Some JNull"
  shows "decode h (Text t) = Inl TypeError
       \<and> handleMessage (enrollment_config h) (Text t) s
           = s\<lparr>trace := trace s @ [Emitted ''error'' (Caught TypeError)]\<rparr>"
  using decode_null [OF assms]
  by (simp add: handleMessage_def enrollment_config_def emit_def log_effect_def)

theorem null_frame_surfaces_error_witness:
  "decode (table_host sample_frames) (Text ''null'') = Inl TypeError
   \<and> trace (run (enrollment_config (table_host sample_frames))
        [CallConnect None, WsOpen 0, Client (WaitFor (\<lambda>v. Some True) None), WsMessage 0 (Text ''null'')]
        (init True))
     = [Created (ConnectP 0), Emitted ''connected'' NoArg, Settled (ConnectP 0) (Resolved JUndefined),
        Created (WaiterP 1), Emitted ''error'' (Caught TypeError)]"
proof -
  have p: "JSON_parse (table_host sample_frames) ''null'' = Some JNull"
    by code_simp
  let ?cfg = "enrollment_config (table_host sample_frames)"
  let ?s = "run ?cfg [CallConnect None, WsOpen 0, Client (WaitFor (\<lambda>v. Some True) None)] (init True)"
  have s: "sockets ?s = [OPEN]"
    "trace ?s = [Created (ConnectP 0), Emitted ''connected'' NoArg, Settled (ConnectP 0) (Resolved JUndefined),
        Created (WaiterP 1)]"
    by (simp_all add: run_def connect_def on_open_def waitFor_def init_def log_effect_def emit_def
        startHeartbeat_def enrollment_config_def setTimeout_def onType_def Let_def)
  have "run ?cfg [CallConnect None, WsOpen 0, Client (WaitFor (\<lambda>v. Some True) None), WsMessage 0 (Text ''null'')] (init True)
        = on_message ?cfg 0 (Text ''null'') ?s"
    by (simp add: run_def)
  with null_frame_surfaces_error [OF p, of ?s] s show ?thesis
    by (simp add: on_message_def)
qed

subsection \<open>Connecting\<close>







subsection \<open>Closing with requests outstanding\<close>

lemma fail_loop_pending:
  "pending (fail_loop err ps s) = filter (\<lambda>kv. fst kv \<notin> fst ` set ps) (pending s)"
  by (induction ps arbitrary: s)
     (auto simp: Let_def clearTimeout_def log_effect_def Map_delete_def intro: filter_cong)

lemma fail_loop_timers:
  "timers (fail_loop err ps s) = filter (\<lambda>e. fst e \<notin> snd ` set ps) (timers s)"
  by (induction ps arbitrary: s)
     (auto simp: Let_def clearTimeout_def log_effect_def Map_delete_def intro: filter_cong)

lemma fail_loop_trace:
  "trace (fail_loop err ps s)
   = trace s @ map (\<lambda>p. Settled (RequestP (fst p)) (Rejected err)) ps"
  by (induction ps arbitrary: s) (auto simp: Let_def clearTimeout_def log_effect_def)

lemma fail_loop_other:
  "nextTimer (fail_loop err ps s) = nextTimer s"
  "autoReconnect (fail_loop err ps s) = autoReconnect s"
  "reconnectAttempts (fail_loop err ps s) = reconnectAttempts s"
  by (induction ps arbitrary: s) (auto simp: Let_def clearTimeout_def log_effect_def)

lemma on_close_connected:
  assumes "n < length (sockets s)" "sockets s ! n \<noteq> CLOSED" "connected_flag s"
  shows "pending (on_close cfg n rnd s) = []"
    and "trace (on_close cfg n rnd s)
         = trace s @ [Emitted ''disconnected'' HostEvent]
           @ map (\<lambda>p. Settled (RequestP (fst p)) (Rejected (Error ''socket closed''))) (pending s)
           @ (if reconnect_due cfg s
              then [Emitted ''reconnecting''
                      (Reconnecting (reconnectAttempts s) (backoff cfg rnd (reconnectAttempts s)))]
              else [])"
    and "timers (on_close cfg n rnd s)
         = filter (\<lambda>e. fst e \<notin> snd ` set (pending s)) (timers (clearHeartbeat s))
           @ (if reconnect_due cfg s
              then [(nextTimer s, backoff cfg rnd (reconnectAttempts s), ReconnectTimer)]
              else [])"
  using assms
  by (auto simp: on_close_def Let_def failAllPending_def fail_loop_pending fail_loop_timers
      fail_loop_trace fail_loop_other scheduleReconnect_def emit_def log_effect_def setTimeout_def
      clearHeartbeat_def clearTimeout_def reconnect_due_def split: option.splits)






lemma digit_val_digit_char: "d < 36 \<Longrightarrow> digit_val (digit_char d) = d"
  by (auto simp: digit_val_def digit_char_def Let_def)

lemma from_radix_snoc: "from_radix b (s @ [c]) = from_radix b s * b + digit_val c"
  by (simp add: from_radix_def)

lemma from_to_radix: "from_radix 36 (to_radix 36 n) = n"
proof (induction n rule: less_induct)
  case (less n)
  show ?case
  proof (cases "n < 36")
    case True
    then show ?thesis
      by (simp add: from_radix_def digit_val_digit_char)
  next
    case False
    then have "n div 36 < n" by simp
    from less [OF this] False show ?thesis
      by (subst to_radix.simps) (simp add: from_radix_snoc digit_val_digit_char)
  qed
qed

lemma to_radix_inj: "to_radix 36 a = to_radix 36 b \<Longrightarrow> a = b"
  by (metis from_to_radix)

lemma digit_char_not_dash: "d < 36 \<Longrightarrow> digit_char d \<noteq> CHR ''-''"
proof
  assume d: "d < 36" and "digit_char d = CHR ''-''"
  then have "(of_char (digit_char d) :: nat) = 45" by simp
  with d show False by (auto simp: digit_char_def split: if_splits)
qed

lemma to_radix_no_dash: "CHR ''-'' \<notin> set (to_radix 36 n)"
proof (induction n rule: less_induct)
  case (less n)
  show ?case
  proof (cases "n < 36")
    case True
    then show ?thesis using digit_char_not_dash [of n] by auto
  next
    case False
    then have "n div 36 < n" by simp
    from less [OF this] False digit_char_not_dash [of "n mod 36"] show ?thesis
      by (subst to_radix.simps) auto
  qed
qed

lemma split_at_dash:
  assumes "xs @ CHR ''-'' # ys = xs' @ CHR ''-'' # ys'"
    and "CHR ''-'' \<notin> set xs" and "CHR ''-'' \<notin> set xs'"
  shows "ys = ys'"
proof -
  have "dropWhile (\<lambda>c. c \<noteq> CHR ''-'') (xs @ CHR ''-'' # ys) = CHR ''-'' # ys"
    using assms(2) by (auto simp: dropWhile_append3)
  moreover have "dropWhile (\<lambda>c. c \<noteq> CHR ''-'') (xs' @ CHR ''-'' # ys') = CHR ''-'' # ys'"
    using assms(3) by (auto simp: dropWhile_append3)
  ultimately show ?thesis using assms(1) by simp
qed

lemma mk_id_counter: "mk_id now c = mk_id now' c' \<Longrightarrow> c = c'"
  unfolding mk_id_def
  using split_at_dash [OF _ to_radix_no_dash to_radix_no_dash] to_radix_inj
  by (metis append_Cons append_Nil)

subsection \<open>Observations\<close>

lemma map_of_Map_set: "map_of (Map_set k v m) = (map_of m)(k \<mapsto> v)"
  by (induction m) auto

lemma set_Map_delete: "set (Map_delete k m) = {e \<in> set m. fst e \<noteq> k}"
  by (auto simp: Map_delete_def)

lemma distinct_Map_delete: "distinct (map fst m) \<Longrightarrow> distinct (map fst (Map_delete k m))"
  by (simp add: Map_delete_def distinct_map_filter)

lemma Map_set_fresh: "k \<notin> fst ` set m \<Longrightarrow> Map_set k v m = m @ [(k, v)]"
  by (induction m) auto

lemma handlers_of_frame:
  "handlers_of (trace_update f1 s) = handlers_of s"
  "handlers_of (timers_update f2 s) = handlers_of s"
  "handlers_of (nextTimer_update f3 s) = handlers_of s"
  "handlers_of (pending_update f4 s) = handlers_of s"
  "handlers_of (idCounter_update f5 s) = handlers_of s"
  "handlers_of (heartbeatTimer_update f6 s) = handlers_of s"
  "handlers_of (sockets_update f7 s) = handlers_of s"
  "handlers_of (ws_update f8 s) = handlers_of s"
  "handlers_of (connected_flag_update f9 s) = handlers_of s"
  "handlers_of (reconnectAttempts_update f10 s) = handlers_of s"
  "handlers_of (autoReconnect_update f11 s) = handlers_of s"
  "handlers_of (rejections_update f12 s) = handlers_of s"
  "handlers_of (nextHandler_update f13 s) = handlers_of s"
  by (simp_all add: handlers_of_def fun_eq_iff)

lemma subscribed_iff:
  "subscribed s w \<longleftrightarrow> (\<exists>ty. \<exists>h\<in>set (handlers_of s ty). waiter_of (snd h) = Some w)"
proof
  assume "subscribed s w"
  then show "\<exists>ty. \<exists>h\<in>set (handlers_of s ty). waiter_of (snd h) = Some w"
    by (auto simp: subscribed_def list_ex_iff)
next
  assume "\<exists>ty. \<exists>h\<in>set (handlers_of s ty). waiter_of (snd h) = Some w"
  then obtain ty h where h: "h \<in> set (handlers_of s ty)" "waiter_of (snd h) = Some w" by blast
  then obtain hs where "map_of (handlers s) ty = Some hs"
    by (cases "map_of (handlers s) ty") (auto simp: handlers_of_def)
  then have "(ty, hs) \<in> set (handlers s)" by (rule map_of_SomeD)
  with h show "subscribed s w"
    by (force simp: subscribed_def list_ex_iff)
qed

lemma handlers_of_onType:
  "handlers_of (onType ty f s) ty'
   = (if ty' = ty then handlers_of s ty @ [(nextHandler s, f)] else handlers_of s ty')"
  by (simp add: onType_def handlers_of_def map_of_Map_set)

lemma handlers_of_offType:
  "handlers_of (offType ty hid s) ty'
   = (if ty' = ty then Map_delete hid (handlers_of s ty) else handlers_of s ty')"
  by (auto simp: offType_def handlers_of_def map_of_Map_set Map_delete_def split: option.splits)

lemma map_of_map_values:
  "map_of (map (\<lambda>(k, v). (k, g v)) m) k = map_option g (map_of m k)"
  by (induction m) auto

lemma handlers_of_remove_waiter:
  "handlers_of (remove_waiter w s) ty
   = filter (\<lambda>h. waiter_of (snd h) \<noteq> Some w) (handlers_of s ty)"
  by (simp add: remove_waiter_def handlers_of_def map_of_map_values split: option.splits)

lemma onType_fields:
  "timers (onType ty f s) = timers s" "nextTimer (onType ty f s) = nextTimer s"
  "pending (onType ty f s) = pending s" "idCounter (onType ty f s) = idCounter s"
  "heartbeatTimer (onType ty f s) = heartbeatTimer s" "trace (onType ty f s) = trace s"
  "nextHandler (onType ty f s) = Suc (nextHandler s)"
  "sockets (onType ty f s) = sockets s" "ws (onType ty f s) = ws s"
  by (simp_all add: onType_def)

lemma offType_fields:
  "timers (offType ty hid s) = timers s" "nextTimer (offType ty hid s) = nextTimer s"
  "pending (offType ty hid s) = pending s" "idCounter (offType ty hid s) = idCounter s"
  "heartbeatTimer (offType ty hid s) = heartbeatTimer s" "trace (offType ty hid s) = trace s"
  "nextHandler (offType ty hid s) = nextHandler s"
  "sockets (offType ty hid s) = sockets s" "ws (offType ty hid s) = ws s"
  by (simp_all add: offType_def split: option.splits)

lemma remove_waiter_fields:
  "timers (remove_waiter w s) = timers s" "nextTimer (remove_waiter w s) = nextTimer s"
  "pending (remove_waiter w s) = pending s" "idCounter (remove_waiter w s) = idCounter s"
  "heartbeatTimer (remove_waiter w s) = heartbeatTimer s" "trace (remove_waiter w s) = trace s"
  "nextHandler (remove_waiter w s) = nextHandler s"
  "sockets (remove_waiter w s) = sockets s" "ws (remove_waiter w s) = ws s"
  by (simp_all add: remove_waiter_def)

lemmas obs = handlers_of_frame handlers_of_onType handlers_of_offType handlers_of_remove_waiter
  onType_fields offType_fields remove_waiter_fields

lemmas prims = log_effect_def emit_def setTimeout_def clearTimeout_def ws_send_def unsubscribe_all_def
  Let_def

subsection \<open>Steps that keep the core of the state\<close>

text \<open>The part of a state that the invariants read.\<close>

lemma same_core_handlers_of: "same_core s s' \<Longrightarrow> handlers_of s' = handlers_of s"
  by (simp add: same_core_def handlers_of_def fun_eq_iff)

lemma same_core_subscribed: "same_core s s' \<Longrightarrow> subscribed s' = subscribed s"
  by (simp add: fun_eq_iff subscribed_iff same_core_handlers_of)

lemma same_core_invariant:
  assumes "same_core s s'" and "invariant s"
  shows "invariant s'"
proof -
  note h = same_core_handlers_of [OF assms(1)] same_core_subscribed [OF assms(1)]
  from assms(1) have eqs: "timers s' = timers s" "nextTimer s' = nextTimer s"
    "heartbeatTimer s' = heartbeatTimer s" "pending s' = pending s" "idCounter s' = idCounter s"
    "nextHandler s' = nextHandler s"
    "\<And>i. settlements s' (RequestP i) = settlements s (RequestP i)"
    "\<And>w. settlements s' (WaiterP w) = settlements s (WaiterP w)"
    "\<And>i. created s' (RequestP i) = created s (RequestP i)"
    "\<And>w. created s' (WaiterP w) = created s (WaiterP w)"
    by (simp_all add: same_core_def)
  from assms(2) show ?thesis
    unfolding invariant_def inv_timers_def inv_requests_def inv_waiters_def inv_handlers_def
      request_ok_def waiter_ok_def eqs h
    by simp
qed

lemma same_core_refl: "same_core s s"
  by (simp add: same_core_def)

lemma same_core_trans: "same_core s s' \<Longrightarrow> same_core s' s'' \<Longrightarrow> same_core s s''"
  by (simp add: same_core_def)

lemmas inv_defs = invariant_def inv_timers_def inv_requests_def inv_waiters_def inv_handlers_def
  request_ok_def waiter_ok_def

lemma same_core_log: "quiet e \<Longrightarrow> same_core s (log_effect e s)"
  by (cases e rule: quiet.cases) (simp_all add: same_core_def log_effect_def settlements_def created_def)

lemma same_core_fields:
  "same_core s (sockets_update f1 s)" "same_core s (ws_update f2 s)"
  "same_core s (connected_flag_update f3 s)" "same_core s (reconnectAttempts_update f4 s)"
  "same_core s (autoReconnect_update f5 s)" "same_core s (rejections_update f6 s)"
  by (simp_all add: same_core_def settlements_def created_def)

lemma same_core_ws_send: "same_core s (ws_send frame s)"
  by (cases "ws s") (simp_all add: ws_send_def same_core_refl same_core_log)

lemma same_core_emit: "same_core s (emit name arg s)"
  by (simp add: emit_def same_core_log)

lemma same_core_send: "same_core s (send cfg ty p s)"
  by (simp add: send_def same_core_log same_core_ws_send)

lemma same_core_sendReply: "same_core s (sendReply cfg to p err s)"
  by (simp add: sendReply_def same_core_refl same_core_ws_send)

lemma same_core_replyError: "same_core s (replyError cfg env m s)"
  by (simp add: replyError_def same_core_sendReply)

lemma same_core_on_error: "same_core s (on_error n s)"
  by (simp add: on_error_def same_core_refl same_core_emit)

lemma same_core_run_rejection: "same_core s (run_rejection cfg i s)"
  unfolding run_rejection_def Let_def
  by (auto intro: same_core_refl same_core_trans [OF same_core_fields(6) same_core_replyError])

lemma same_core_connect: "same_core s (connect ctor s)"
  by (cases ctor)
     (simp_all add: connect_def Let_def same_core_def log_effect_def settlements_def created_def)

lemma inv_cong:
  assumes "timers s' = timers s" "nextTimer s' = nextTimer s" "heartbeatTimer s' = heartbeatTimer s"
    "pending s' = pending s" "idCounter s' = idCounter s" "handlers s' = handlers s"
    "nextHandler s' = nextHandler s" "trace s' = trace s"
  shows "invariant s' = invariant s"
proof -
  from assms have a: "same_core s s'" and b: "same_core s' s"
    by (simp_all add: same_core_def settlements_def created_def)
  show ?thesis using same_core_invariant [OF a] same_core_invariant [OF b] by blast
qed

subsection \<open>Observations of the primitives\<close>

lemma settled_by_simps [simp]:
  "settled_by p (Settled q out) = (if q = p then [out] else [])"
  "settled_by p (Created q) = []" "settled_by p (Sent n v) = []" "settled_by p (Emitted nm a) = []"
  "settled_by p (Invoked hid v) = []" "settled_by p (Thrown err) = []"
  by (simp_all add: settled_by_def)

lemma log_effect_obs:
  "settlements (log_effect e s) p = settlements s p @ settled_by p e"
  "created (log_effect e s) p \<longleftrightarrow> created s p \<or> e = Created p"
  "timers (log_effect e s) = timers s" "nextTimer (log_effect e s) = nextTimer s"
  "pending (log_effect e s) = pending s" "idCounter (log_effect e s) = idCounter s"
  "heartbeatTimer (log_effect e s) = heartbeatTimer s" "handlers_of (log_effect e s) = handlers_of s"
  "nextHandler (log_effect e s) = nextHandler s" "subscribed (log_effect e s) = subscribed s"
  by (auto simp: log_effect_def settlements_def created_def settled_by_def handlers_of_frame
      subscribed_iff fun_eq_iff)

lemma setTimeout_obs:
  "settlements (setTimeout d cb s) p = settlements s p"
  "created (setTimeout d cb s) p = created s p"
  "timers (setTimeout d cb s) = timers s @ [(nextTimer s, d, cb)]"
  "nextTimer (setTimeout d cb s) = Suc (nextTimer s)"
  "pending (setTimeout d cb s) = pending s" "idCounter (setTimeout d cb s) = idCounter s"
  "heartbeatTimer (setTimeout d cb s) = heartbeatTimer s"
  "handlers_of (setTimeout d cb s) = handlers_of s"
  "nextHandler (setTimeout d cb s) = nextHandler s" "subscribed (setTimeout d cb s) = subscribed s"
  by (auto simp: setTimeout_def settlements_def created_def handlers_of_frame subscribed_iff fun_eq_iff)

lemma clearTimeout_obs:
  "settlements (clearTimeout t s) p = settlements s p"
  "created (clearTimeout t s) p = created s p"
  "timers (clearTimeout t s) = Map_delete t (timers s)"
  "nextTimer (clearTimeout t s) = nextTimer s"
  "pending (clearTimeout t s) = pending s" "idCounter (clearTimeout t s) = idCounter s"
  "heartbeatTimer (clearTimeout t s) = heartbeatTimer s"
  "handlers_of (clearTimeout t s) = handlers_of s"
  "nextHandler (clearTimeout t s) = nextHandler s" "subscribed (clearTimeout t s) = subscribed s"
  by (auto simp: clearTimeout_def settlements_def created_def handlers_of_frame subscribed_iff fun_eq_iff)

lemma pending_update_obs:
  "settlements (pending_update f s) p = settlements s p"
  "created (pending_update f s) p = created s p"
  "subscribed (pending_update f s) = subscribed s"
  by (auto simp: settlements_def created_def handlers_of_frame subscribed_iff fun_eq_iff)

lemma idCounter_update_obs:
  "settlements (idCounter_update f s) p = settlements s p"
  "created (idCounter_update f s) p = created s p"
  "subscribed (idCounter_update f s) = subscribed s"
  by (auto simp: settlements_def created_def handlers_of_frame subscribed_iff fun_eq_iff)

lemma heartbeatTimer_update_obs:
  "settlements (heartbeatTimer_update f s) p = settlements s p"
  "created (heartbeatTimer_update f s) p = created s p"
  "subscribed (heartbeatTimer_update f s) = subscribed s"
  by (auto simp: settlements_def created_def handlers_of_frame subscribed_iff fun_eq_iff)

lemma handlers_obs:
  "settlements (onType ty f s) p = settlements s p" "created (onType ty f s) p = created s p"
  "settlements (offType ty hid s) p = settlements s p" "created (offType ty hid s) p = created s p"
  "settlements (remove_waiter w s) p = settlements s p" "created (remove_waiter w s) p = created s p"
  by (simp_all add: settlements_def created_def obs)

lemma subscribed_pair:
  "subscribed s w \<longleftrightarrow> (\<exists>ty hid f. (hid, f) \<in> set (handlers_of s ty) \<and> waiter_of f = Some w)"
  unfolding subscribed_iff by force

lemma subscribed_remove_waiter:
  "subscribed (remove_waiter w s) w' \<longleftrightarrow> subscribed s w' \<and> w' \<noteq> w"
proof -
  have "\<And>ty hid f. (hid, f) \<in> set (filter (\<lambda>h. waiter_of (snd h) \<noteq> Some w) (handlers_of s ty))
                        \<and> waiter_of f = Some w'
        \<longleftrightarrow> ((hid, f) \<in> set (handlers_of s ty) \<and> waiter_of f = Some w') \<and> w' \<noteq> w"
    by auto
  then show ?thesis
    unfolding subscribed_pair obs by blast
qed

lemma subscribed_onType:
  "subscribed (onType ty f s) w \<longleftrightarrow> subscribed s w \<or> waiter_of f = Some w"
proof
  assume "subscribed (onType ty f s) w"
  then obtain ty' hid g where g: "(hid, g) \<in> set (handlers_of (onType ty f s) ty')" "waiter_of g = Some w"
    unfolding subscribed_pair by blast
  show "subscribed s w \<or> waiter_of f = Some w"
  proof (cases "(hid, g) \<in> set (handlers_of s ty')")
    case True
    with g(2) show ?thesis unfolding subscribed_pair by blast
  next
    case False
    with g(1) have "g = f" by (simp add: obs split: if_splits)
    with g(2) show ?thesis by simp
  qed
next
  assume a: "subscribed s w \<or> waiter_of f = Some w"
  have new: "(nextHandler s, f) \<in> set (handlers_of (onType ty f s) ty)"
    by (simp add: obs)
  have old: "\<And>ty' h. h \<in> set (handlers_of s ty') \<Longrightarrow> h \<in> set (handlers_of (onType ty f s) ty')"
    by (auto simp: obs)
  from a show "subscribed (onType ty f s) w"
  proof
    assume "subscribed s w"
    then obtain ty' hid g where "(hid, g) \<in> set (handlers_of s ty')" "waiter_of g = Some w"
      unfolding subscribed_pair by blast
    with old [of "(hid, g)" ty'] show ?thesis unfolding subscribed_pair by blast
  next
    assume "waiter_of f = Some w"
    with new show ?thesis unfolding subscribed_pair by blast
  qed
qed

lemma subscribed_offType: "subscribed (offType ty hid s) w \<Longrightarrow> subscribed s w"
proof -
  assume "subscribed (offType ty hid s) w"
  then obtain ty' k g where g: "(k, g) \<in> set (handlers_of (offType ty hid s) ty')" "waiter_of g = Some w"
    unfolding subscribed_pair by blast
  from g(1) have "(k, g) \<in> set (handlers_of s ty')"
    by (simp add: obs set_Map_delete split: if_splits)
  with g(2) show "subscribed s w" unfolding subscribed_pair by blast
qed

lemmas obs2 = log_effect_obs setTimeout_obs clearTimeout_obs pending_update_obs idCounter_update_obs
  heartbeatTimer_update_obs handlers_obs subscribed_remove_waiter subscribed_onType obs

subsection \<open>Timers of the connection\<close>

lemma inv_timers_setTimeout: "inv_timers s \<Longrightarrow> inv_timers (setTimeout d cb s)"
  unfolding inv_timers_def by (fastforce simp: obs2 less_Suc_eq)

lemma inv_requests_setTimeout:
  "inv_timers s \<Longrightarrow> inv_requests s \<Longrightarrow> \<not> is_request_timeout cb \<Longrightarrow> inv_requests (setTimeout d cb s)"
  unfolding inv_requests_def request_ok_def inv_timers_def
  by (simp add: obs2) (metis is_request_timeout.simps(1))

lemma inv_waiters_setTimeout:
  "inv_timers s \<Longrightarrow> inv_waiters s \<Longrightarrow> \<not> is_waiter_timeout cb \<Longrightarrow> inv_waiters (setTimeout d cb s)"
  unfolding inv_waiters_def waiter_ok_def inv_timers_def
  by (simp add: obs2 less_Suc_eq) blast

lemma inv_handlers_cong: "handlers_of s' = handlers_of s \<Longrightarrow> nextHandler s' = nextHandler s
  \<Longrightarrow> inv_handlers s' = inv_handlers s"
  by (simp add: inv_handlers_def)

lemma invariant_plain_timer:
  assumes "invariant s" "plain_timer cb"
  shows "invariant (setTimeout d cb s)"
  using assms unfolding invariant_def plain_timer_def
  by (simp add: inv_timers_setTimeout inv_requests_setTimeout inv_waiters_setTimeout
      inv_handlers_cong [of "setTimeout d cb s" s] obs2)

lemma plain_timer_simps [simp]:
  "plain_timer ReconnectTimer" "plain_timer HeartbeatTick"
  "\<not> plain_timer (RequestTimeout i ty)" "\<not> plain_timer (SendWaitTimeout e)" "\<not> plain_timer WaitForTimeout"
  by (simp_all add: plain_timer_def)

lemma heartbeatTimer_update_inv:
  "inv_requests (heartbeatTimer_update f s) = inv_requests s"
  "inv_waiters (heartbeatTimer_update f s) = inv_waiters s"
  "inv_handlers (heartbeatTimer_update f s) = inv_handlers s"
  by (simp_all add: inv_requests_def inv_waiters_def inv_handlers_def request_ok_def waiter_ok_def obs2)

lemma inv_timers_clear: "inv_timers s \<Longrightarrow> inv_timers (clearTimeout t s)"
  unfolding inv_timers_def
  by (auto simp: obs2 set_Map_delete distinct_Map_delete)

lemma inv_requests_clear:
  assumes "inv_requests s" and "\<forall>e\<in>set (timers s). fst e = t \<longrightarrow> \<not> is_request_timeout (snd (snd e))"
  shows "inv_requests (clearTimeout t s)"
proof -
  have keep: "(t', d, RequestTimeout i ty) \<in> set (timers s)
               \<Longrightarrow> (t', d, RequestTimeout i ty) \<in> set (Map_delete t (timers s))" for t' d i ty
    using assms(2) by (fastforce simp: set_Map_delete)
  have ok: "request_ok (clearTimeout t s) i" if "request_ok s i" for i
    using that keep unfolding request_ok_def obs2 by blast
  have sub: "set (Map_delete t (timers s)) \<subseteq> set (timers s)"
    by (auto simp: set_Map_delete)
  from assms(1) ok sub show ?thesis
    unfolding inv_requests_def obs2 by blast
qed

lemma inv_waiters_clear:
  assumes "inv_waiters s" and "\<forall>e\<in>set (timers s). fst e = t \<longrightarrow> \<not> is_waiter_timeout (snd (snd e))"
  shows "inv_waiters (clearTimeout t s)"
proof -
  have keep: "(w, d, cb) \<in> set (timers s) \<Longrightarrow> is_waiter_timeout cb
               \<Longrightarrow> (w, d, cb) \<in> set (Map_delete t (timers s))" for w d cb
    using assms(2) by (fastforce simp: set_Map_delete)
  have sub: "set (Map_delete t (timers s)) \<subseteq> set (timers s)"
    by (auto simp: set_Map_delete)
  then have sub': "w \<notin> fst ` set (timers s) \<Longrightarrow> w \<notin> fst ` set (Map_delete t (timers s))" for w
    by blast
  have ok: "waiter_ok (clearTimeout t s) w" if "waiter_ok s w" for w
    using that keep sub' unfolding waiter_ok_def obs2 by blast
  from assms(1) ok sub show ?thesis
    unfolding inv_waiters_def obs2 by blast
qed

lemma invariant_clear_plain:
  assumes "invariant s" and "\<forall>e\<in>set (timers s). fst e = t \<longrightarrow> plain_timer (snd (snd e))"
  shows "invariant (clearTimeout t s)"
  using assms unfolding invariant_def plain_timer_def
  by (simp add: inv_timers_clear inv_requests_clear inv_waiters_clear
      inv_handlers_cong [of "clearTimeout t s" s] obs2)

lemma invariant_clearHeartbeat: "invariant s \<Longrightarrow> invariant (clearHeartbeat s)"
proof (cases "heartbeatTimer s")
  case None
  then show "invariant s \<Longrightarrow> invariant (clearHeartbeat s)" by (simp add: clearHeartbeat_def)
next
  case (Some t)
  assume inv: "invariant s"
  with Some have "\<forall>e\<in>set (timers s). fst e = t \<longrightarrow> plain_timer (snd (snd e))"
    by (auto simp: invariant_def inv_timers_def)
  from invariant_clear_plain [OF inv this]
  have "invariant (clearTimeout t s)" .
  then have "invariant ((clearTimeout t s)\<lparr>heartbeatTimer := None\<rparr>)"
    by (simp add: invariant_def heartbeatTimer_update_inv) (simp add: inv_timers_def)
  with Some show "invariant (clearHeartbeat s)" by (simp add: clearHeartbeat_def)
qed

lemma invariant_startHeartbeat: "invariant s \<Longrightarrow> invariant (startHeartbeat cfg s)"
proof -
  assume inv: "invariant s"
  have "invariant (setTimeout d HeartbeatTick s)" for d
    by (rule invariant_plain_timer [OF inv]) simp
  moreover have "inv_timers ((setTimeout d HeartbeatTick s)\<lparr>heartbeatTimer := Some (nextTimer s)\<rparr>)" for d
    using inv unfolding invariant_def inv_timers_def
    by (auto simp: obs2 setTimeout_def)
  ultimately show ?thesis
    using inv by (auto simp: startHeartbeat_def invariant_def heartbeatTimer_update_inv)
qed

lemma invariant_same_core: "invariant s \<Longrightarrow> same_core s s' \<Longrightarrow> invariant s'"
  using same_core_invariant by blast

lemma invariant_on_open: "invariant s \<Longrightarrow> invariant (on_open cfg n s)"
  unfolding on_open_def Let_def
  apply (simp split: if_splits)
  apply (intro impI)
  apply (rule invariant_same_core [OF _ same_core_log])
   apply (rule invariant_startHeartbeat)
   apply (rule invariant_same_core [OF _ same_core_emit])
   apply (erule invariant_same_core)
   apply (simp add: same_core_def settlements_def created_def)
  apply simp
  done

lemma invariant_scheduleReconnect: "invariant s \<Longrightarrow> invariant (scheduleReconnect cfg rnd s)"
  unfolding scheduleReconnect_def Let_def
  apply (simp split: if_splits)
  apply (intro impI)
  apply (rule invariant_plain_timer)
   apply (rule invariant_same_core [OF _ same_core_emit])
   apply (erule invariant_same_core [OF _ same_core_fields(4)])
  apply simp
  done

lemma invariant_close: "invariant s \<Longrightarrow> invariant (close s)"
  unfolding close_def Let_def
  apply (rule invariant_clearHeartbeat)
  apply (cases "ws s")
   apply (simp_all)
   apply (erule invariant_same_core [OF _ same_core_fields(5)])
  apply (intro conjI impI)
   apply (rule invariant_same_core [OF _ same_core_fields(1)])
   apply (erule invariant_same_core [OF _ same_core_fields(5)])
  apply (erule invariant_same_core [OF _ same_core_fields(5)])
  done

subsection \<open>Requests\<close>

lemma pending_created:
  "inv_requests s \<Longrightarrow> (i, t) \<in> set (pending s) \<Longrightarrow> created s (RequestP i)"
  unfolding inv_requests_def by force

lemma pending_timer:
  assumes "inv_requests s" "(i, t) \<in> set (pending s)"
  shows "\<exists>d ty. (t, d, RequestTimeout i ty) \<in> set (timers s)" and "settlements s (RequestP i) = []"
proof -
  from assms have "request_ok s i" using pending_created unfolding inv_requests_def by blast
  moreover from assms(2) have "i \<in> fst ` set (pending s)" by force
  ultimately obtain t' d ty where t': "(i, t') \<in> set (pending s)"
    "(t', d, RequestTimeout i ty) \<in> set (timers s)" and e: "settlements s (RequestP i) = []"
    unfolding request_ok_def by blast
  from assms(1) have "distinct (map fst (pending s))" unfolding inv_requests_def by blast
  with t'(1) assms(2) have "t' = t" by (meson eq_key_imp_eq_value)
  with t'(2) show "\<exists>d ty. (t, d, RequestTimeout i ty) \<in> set (timers s)" by blast
  from e show "settlements s (RequestP i) = []" .
qed

text \<open>A request leaves the pending map with one settlement: by a reply, by its timeout, or on close.\<close>

lemma invariant_settle_request:
  assumes inv: "invariant s" and p: "(i, t) \<in> set (pending s)"
  shows "invariant (log_effect (Settled (RequestP i) out)
                      ((clearTimeout t s)\<lparr>pending := Map_delete i (pending s)\<rparr>))"
    (is "invariant ?s'")
proof -
  from inv have it: "inv_timers s" and ir: "inv_requests s" and iw: "inv_waiters s"
    and ih: "inv_handlers s" by (simp_all add: invariant_def)
  from pending_timer [OF ir p] obtain d ty where
    tm: "(t, d, RequestTimeout i ty) \<in> set (timers s)" and unsettled: "settlements s (RequestP i) = []"
    by blast
  from it have dt: "distinct (map fst (timers s))" by (simp add: inv_timers_def)
  from ir have dp: "distinct (map fst (pending s))" by (simp add: inv_requests_def)
  have only: "e = (t, d, RequestTimeout i ty)" if "e \<in> set (timers s)" "fst e = t" for e
    using that tm dt by (metis eq_key_imp_eq_value prod.collapse)
  have obs': "timers ?s' = Map_delete t (timers s)" "pending ?s' = Map_delete i (pending s)"
    "nextTimer ?s' = nextTimer s" "heartbeatTimer ?s' = heartbeatTimer s" "idCounter ?s' = idCounter s"
    "handlers_of ?s' = handlers_of s" "nextHandler ?s' = nextHandler s"
    "subscribed ?s' = subscribed s"
    "\<And>p. settlements ?s' p = settlements s p @ (if p = RequestP i then [out] else [])"
    "\<And>p. created ?s' p = created s p"
    by (auto simp: obs2)
  have 1: "inv_timers ?s'"
    using it unfolding inv_timers_def obs'
    by (auto simp: set_Map_delete distinct_Map_delete)
  have ok: "request_ok ?s' j" if c: "created s (RequestP j)" for j
  proof (cases "j = i")
    case True
    then show ?thesis
      using ir c unsettled unfolding request_ok_def inv_requests_def obs'
      by (auto simp: set_Map_delete)
  next
    case False
    from ir c have r: "request_ok s j" unfolding inv_requests_def by blast
    show ?thesis
    proof (cases "j \<in> fst ` set (pending s)")
      case True
      with r obtain tj dj tyj where j: "(j, tj) \<in> set (pending s)"
        "(tj, dj, RequestTimeout j tyj) \<in> set (timers s)" "settlements s (RequestP j) = []"
        unfolding request_ok_def by blast
      have "tj \<noteq> t" using only [OF j(2)] False by auto
      with j False r show ?thesis
        unfolding request_ok_def obs' by (auto simp: set_Map_delete)
    next
      case nin: False
      with r have "(\<exists>now c. j = mk_id now c \<and> c \<le> idCounter s)
                   \<and> length (settlements s (RequestP j)) = 1"
        unfolding request_ok_def by force
      with nin False show ?thesis
        unfolding request_ok_def obs' by (auto simp: set_Map_delete)
    qed
  qed
  have 2: "inv_requests ?s'"
    unfolding inv_requests_def obs'
  proof (intro conjI allI impI ballI)
    show "distinct (map fst (Map_delete i (pending s)))" using dp by (rule distinct_Map_delete)
  next
    fix j assume "created s (RequestP j)" then show "request_ok ?s' j" by (rule ok)
  next
    fix j assume n: "\<not> created s (RequestP j)"
    with ir pending_created [OF ir p] show "settlements s (RequestP j) @ (if RequestP j = RequestP i then [out] else []) = []"
      unfolding inv_requests_def by auto
    from n ir show "j \<notin> fst ` set (Map_delete i (pending s))"
      unfolding inv_requests_def by (auto simp: set_Map_delete)
  next
    fix e j tyj assume e: "e \<in> set (Map_delete t (timers s))" "snd (snd e) = RequestTimeout j tyj"
    then have e': "e \<in> set (timers s)" "fst e \<noteq> t" by (auto simp: set_Map_delete)
    with ir e(2) have jp: "(j, fst e) \<in> set (pending s)" unfolding inv_requests_def by blast
    have "j \<noteq> i"
    proof
      assume "j = i"
      with jp p dp have "fst e = t" by (meson eq_key_imp_eq_value)
      with e'(2) show False by simp
    qed
    with jp show "(j, fst e) \<in> set (Map_delete i (pending s))" by (simp add: set_Map_delete)
  qed
  have wok: "waiter_ok ?s' w" if "waiter_ok s w" for w
  proof -
    have "(w, d', cb) \<in> set (Map_delete t (timers s))"
      if "(w, d', cb) \<in> set (timers s)" "is_waiter_timeout cb" for d' cb
      using that only [OF that(1)] by (auto simp: set_Map_delete)
    moreover have "w \<notin> fst ` set (Map_delete t (timers s))" if "w \<notin> fst ` set (timers s)"
      using that by (auto simp: set_Map_delete)
    ultimately show ?thesis
      using that unfolding waiter_ok_def obs' by simp blast
  qed
  have 3: "inv_waiters ?s'"
    using iw wok unfolding inv_waiters_def obs'
    by (auto simp: set_Map_delete)
  have 4: "inv_handlers ?s'"
    using ih by (simp add: inv_handlers_def obs')
  from 1 2 3 4 show ?thesis by (simp add: invariant_def)
qed

lemma fail_loop_step:
  "(let s1 = clearTimeout t s; s2 = log_effect (Settled (RequestP i) (Rejected err)) s1
    in s2\<lparr>pending := Map_delete i (pending s2)\<rparr>)
   = log_effect (Settled (RequestP i) (Rejected err)) ((clearTimeout t s)\<lparr>pending := Map_delete i (pending s)\<rparr>)"
  by (simp add: Let_def log_effect_def clearTimeout_def)

lemma invariant_fail_loop:
  "invariant s \<Longrightarrow> set ps \<subseteq> set (pending s) \<Longrightarrow> distinct (map fst ps)
   \<Longrightarrow> invariant (fail_loop err ps s)"
proof (induction ps arbitrary: s)
  case Nil
  then show ?case by simp
next
  case (Cons p ps)
  obtain i t where p: "p = (i, t)" by (cases p)
  let ?s1 = "log_effect (Settled (RequestP i) (Rejected err)) ((clearTimeout t s)\<lparr>pending := Map_delete i (pending s)\<rparr>)"
  from Cons.prems p have "(i, t) \<in> set (pending s)" by simp
  from invariant_settle_request [OF Cons.prems(1) this] have inv1: "invariant ?s1" .
  have pend: "pending ?s1 = Map_delete i (pending s)" by (simp add: obs2)
  from Cons.prems p have "set ps \<subseteq> set (pending ?s1)"
    unfolding pend by (force simp: set_Map_delete)
  moreover from Cons.prems have "distinct (map fst ps)" by simp
  ultimately have "invariant (fail_loop err ps ?s1)" using Cons.IH inv1 by blast
  then show ?case unfolding p fail_loop.simps fail_loop_step .
qed

lemma invariant_failAllPending: "invariant s \<Longrightarrow> invariant (failAllPending err s)"
  unfolding failAllPending_def
  by (rule invariant_fail_loop) (simp_all add: invariant_def inv_requests_def)

lemma invariant_on_close: "invariant s \<Longrightarrow> invariant (on_close cfg n rnd s)"
proof -
  assume inv: "invariant s"
  let ?s3 = "emit ''disconnected'' HostEvent
               (clearHeartbeat (s\<lparr>sockets := (sockets s)[n := CLOSED], connected_flag := False\<rparr>))"
  have "invariant (s\<lparr>sockets := (sockets s)[n := CLOSED], connected_flag := False\<rparr>)"
    by (rule invariant_same_core [OF inv]) (simp add: same_core_def settlements_def created_def)
  then have 3: "invariant ?s3"
    by (intro invariant_same_core [OF _ same_core_emit] invariant_clearHeartbeat)
  then have 4: "invariant (failAllPending err ?s3)" for err
    by (rule invariant_failAllPending)
  show ?thesis
    unfolding on_close_def Let_def
    using inv 3 4 by (auto intro: invariant_scheduleReconnect)
qed

lemma request_ok_id: "request_ok s i \<Longrightarrow> \<exists>now c. i = mk_id now c \<and> c \<le> idCounter s"
  unfolding request_ok_def by (rule conjunct1)

lemma fresh_id:
  assumes "inv_requests s"
  shows "\<not> created s (RequestP (mk_id now (Suc (idCounter s))))"
proof
  assume c: "created s (RequestP (mk_id now (Suc (idCounter s))))"
  from assms have "\<forall>i. created s (RequestP i) \<longrightarrow> request_ok s i"
    unfolding inv_requests_def by (elim conjE)
  with c have "request_ok s (mk_id now (Suc (idCounter s)))" by (elim allE impE)
  from request_ok_id [OF this] obtain now' c
    where e: "mk_id now (Suc (idCounter s)) = mk_id now' c" and le: "c \<le> idCounter s"
    by (elim exE conjE)
  from mk_id_counter [OF e] have "Suc (idCounter s) = c" .
  with le show False by simp
qed

lemma invariant_new_request:
  fixes now :: nat
  assumes inv: "invariant s" and i_def: "i = mk_id now (Suc (idCounter s))"
  shows "invariant ((setTimeout d (RequestTimeout i ty)
                      (log_effect (Created (RequestP i)) (s\<lparr>idCounter := Suc (idCounter s)\<rparr>)))
                    \<lparr>pending := pending s @ [(i, nextTimer s)]\<rparr>)"
    (is "invariant ?s'")
proof -
  from inv have it: "inv_timers s" and ir: "inv_requests s" and iw: "inv_waiters s"
    and ih: "inv_handlers s" by (simp_all add: invariant_def)
  have fresh: "\<not> created s (RequestP i)" unfolding i_def by (rule fresh_id [OF ir])
  with ir have f2: "settlements s (RequestP i) = []" "i \<notin> fst ` set (pending s)"
    unfolding inv_requests_def by blast+
  have obs': "timers ?s' = timers s @ [(nextTimer s, d, RequestTimeout i ty)]"
    "pending ?s' = pending s @ [(i, nextTimer s)]"
    "nextTimer ?s' = Suc (nextTimer s)" "heartbeatTimer ?s' = heartbeatTimer s"
    "idCounter ?s' = Suc (idCounter s)"
    "handlers_of ?s' = handlers_of s" "nextHandler ?s' = nextHandler s"
    "subscribed ?s' = subscribed s"
    "\<And>p. settlements ?s' p = settlements s p"
    "\<And>p. created ?s' p \<longleftrightarrow> created s p \<or> p = RequestP i"
    by (auto simp: obs2)
  let ?s0 = "log_effect (Created (RequestP i)) (s\<lparr>idCounter := Suc (idCounter s)\<rparr>)"
  have "inv_timers ?s0 = inv_timers s" "inv_waiters ?s0 = inv_waiters s"
    by (simp_all add: inv_timers_def inv_waiters_def waiter_ok_def obs2)
  with it iw have s0: "inv_timers ?s0" "inv_waiters ?s0"
    by simp_all
  have "inv_timers (setTimeout d (RequestTimeout i ty) ?s0)"
    by (rule inv_timers_setTimeout [OF s0(1)])
  moreover have "inv_timers ?s' = inv_timers (setTimeout d (RequestTimeout i ty) ?s0)"
    by (simp add: inv_timers_def)
  ultimately have 1: "inv_timers ?s'"
    by simp
  have "inv_waiters (setTimeout d (RequestTimeout i ty) ?s0)"
    by (rule inv_waiters_setTimeout [OF s0]) simp
  moreover have "inv_waiters ?s' = inv_waiters (setTimeout d (RequestTimeout i ty) ?s0)"
    by (simp add: inv_waiters_def waiter_ok_def obs2)
  ultimately have 3: "inv_waiters ?s'"
    by simp
  have ok: "request_ok ?s' j" if r: "request_ok s j" for j
  proof -
    from r obtain now' c where "j = mk_id now' c" "c \<le> idCounter s"
      unfolding request_ok_def by blast
    then have id': "\<exists>now c. j = mk_id now c \<and> c \<le> Suc (idCounter s)"
      by (intro exI [of _ now'] exI [of _ c]) simp
    from r consider
      (P) t d' ty' where "(j, t) \<in> set (pending s)" "(t, d', RequestTimeout j ty') \<in> set (timers s)"
        "settlements s (RequestP j) = []"
      | (S) "j \<notin> fst ` set (pending s)" "length (settlements s (RequestP j)) = 1"
      unfolding request_ok_def by blast
    then show ?thesis
    proof cases
      case P
      then have "(j, t) \<in> set (pending s @ [(i, nextTimer s)])"
        "(t, d', RequestTimeout j ty') \<in> set (timers s @ [(nextTimer s, d, RequestTimeout i ty)])"
        by simp_all
      with id' P(3) show ?thesis unfolding request_ok_def obs' by blast
    next
      case S
      with f2 have "j \<noteq> i" by auto
      with S have "j \<notin> fst ` set (pending s @ [(i, nextTimer s)])" by auto
      with id' S(2) show ?thesis unfolding request_ok_def obs' by blast
    qed
  qed
  have "\<exists>now c. i = mk_id now c \<and> c \<le> Suc (idCounter s)"
    using i_def by blast
  moreover have "(i, nextTimer s) \<in> set (pending s @ [(i, nextTimer s)])"
    "(nextTimer s, d, RequestTimeout i ty) \<in> set (timers s @ [(nextTimer s, d, RequestTimeout i ty)])"
    by simp_all
  ultimately have oki: "request_ok ?s' i"
    unfolding request_ok_def obs' using f2(1) by blast
  from ir have dp: "distinct (map fst (pending s))"
    and cr: "\<And>j. created s (RequestP j) \<Longrightarrow> request_ok s j"
    and nc: "\<And>j. \<not> created s (RequestP j) \<Longrightarrow> settlements s (RequestP j) = [] \<and> j \<notin> fst ` set (pending s)"
    and tp: "\<And>e j tyj. e \<in> set (timers s) \<Longrightarrow> snd (snd e) = RequestTimeout j tyj
               \<Longrightarrow> (j, fst e) \<in> set (pending s)"
    unfolding inv_requests_def by blast+
  have 2: "inv_requests ?s'"
    unfolding inv_requests_def obs'
  proof (intro conjI allI impI ballI)
    show "distinct (map fst (pending s @ [(i, nextTimer s)]))"
      using dp f2(2) by simp
  next
    fix j assume "created s (RequestP j) \<or> RequestP j = RequestP i"
    then consider "created s (RequestP j)" | "j = i" by auto
    then show "request_ok ?s' j"
    proof cases
      case 1
      then show ?thesis by (intro ok cr)
    next
      case 2
      with oki show ?thesis by simp
    qed
  next
    fix j assume n: "\<not> (created s (RequestP j) \<or> RequestP j = RequestP i)"
    then have n': "\<not> created s (RequestP j)" "j \<noteq> i" by auto
    from nc [OF n'(1)] show "settlements s (RequestP j) = []" by blast
    from nc [OF n'(1)] n'(2) show "j \<notin> fst ` set (pending s @ [(i, nextTimer s)])"
      by auto
  next
    fix e j tyj
    assume e: "e \<in> set (timers s @ [(nextTimer s, d, RequestTimeout i ty)])"
      "snd (snd e) = RequestTimeout j tyj"
    show "(j, fst e) \<in> set (pending s @ [(i, nextTimer s)])"
    proof (cases "e \<in> set (timers s)")
      case True
      from tp [OF True e(2)] show ?thesis by simp
    next
      case False
      with e show ?thesis by simp
    qed
  qed
  have "inv_handlers ?s' = inv_handlers s"
    unfolding inv_handlers_def obs' ..
  with ih have 4: "inv_handlers ?s'" by (rule iffD2 [rotated])
  show ?thesis unfolding invariant_def by (intro conjI 1 2 3 4)
qed

lemma invariant_request: "invariant s \<Longrightarrow> invariant (request cfg ty p ms now s)"
proof -
  assume inv: "invariant s"
  then have "mk_id now (Suc (idCounter s)) \<notin> fst ` set (pending s)"
    using fresh_id [of s now] unfolding invariant_def inv_requests_def by blast
  then have ms: "Map_set (mk_id now (Suc (idCounter s))) t (pending s)
                 = pending s @ [(mk_id now (Suc (idCounter s)), t)]" for t
    by (rule Map_set_fresh)
  show ?thesis
    unfolding request_def Let_def
    apply (simp split: if_splits)
    apply (intro conjI impI)
     apply (rule invariant_same_core [OF inv same_core_log], simp)
    apply (rule invariant_same_core [OF _ same_core_ws_send])
    apply (simp add: obs2 ms)
    apply (rule invariant_new_request [OF inv refl])
    done
qed

lemma invariant_reply:
  assumes "invariant s" "pending_get s key = Some (i, t)"
  shows "invariant (log_effect (Settled (RequestP i) out)
                      ((clearTimeout t s)\<lparr>pending := Map_delete i (pending (clearTimeout t s))\<rparr>))"
proof -
  from assms(2) have "(i, t) \<in> set (pending s)"
    by (auto simp: pending_get_def split: jsval.splits option.splits dest: map_of_SomeD)
  from invariant_settle_request [OF assms(1) this] show ?thesis
    by (simp add: obs2)
qed

subsection \<open>Waiters\<close>

lemma subscribed_created: "inv_waiters s \<Longrightarrow> subscribed s w \<Longrightarrow> created s (WaiterP w)"
  unfolding inv_waiters_def by blast

lemma waiter_timer_created:
  "inv_waiters s \<Longrightarrow> (w, d, cb) \<in> set (timers s) \<Longrightarrow> is_waiter_timeout cb \<Longrightarrow> created s (WaiterP w)"
  unfolding inv_waiters_def by force

lemma created_waiter_ok: "inv_waiters s \<Longrightarrow> created s (WaiterP w) \<Longrightarrow> waiter_ok s w"
  unfolding inv_waiters_def by blast

lemma waiter_ok_bound: "waiter_ok s w \<Longrightarrow> w < nextTimer s"
  unfolding waiter_ok_def by (rule conjunct1)

lemma waiting_unsettled:
  assumes "inv_waiters s" "(w, d, cb) \<in> set (timers s)" "is_waiter_timeout cb"
  shows "settlements s (WaiterP w) = []"
proof -
  from created_waiter_ok [OF assms(1) waiter_timer_created [OF assms]]
  have "waiter_ok s w" .
  moreover from assms(2) have "w \<in> fst ` set (timers s)" by force
  ultimately show ?thesis unfolding waiter_ok_def by blast
qed

lemma subscribed_waiting:
  assumes "inv_waiters s" "subscribed s w"
  shows "\<exists>d cb. (w, d, cb) \<in> set (timers s) \<and> is_waiter_timeout cb"
proof -
  from created_waiter_ok [OF assms(1) subscribed_created [OF assms]]
  have "waiter_ok s w" .
  with assms(2) show ?thesis unfolding waiter_ok_def by blast
qed

text \<open>A waiter is settled once: its timer is cleared and its handlers are removed.\<close>

lemma invariant_settle_waiter:
  assumes inv: "invariant s" and tm: "(w, d, cb) \<in> set (timers s)" and cb: "is_waiter_timeout cb"
  shows "invariant (log_effect (Settled (WaiterP w) out) (remove_waiter w (clearTimeout w s)))"
    (is "invariant ?s'")
proof -
  from inv have it: "inv_timers s" and ir: "inv_requests s" and iw: "inv_waiters s"
    and ih: "inv_handlers s" by (simp_all add: invariant_def)
  from waiting_unsettled [OF iw tm cb] have unsettled: "settlements s (WaiterP w) = []" .
  from waiter_timer_created [OF iw tm cb] have cr: "created s (WaiterP w)" .
  from it have dt: "distinct (map fst (timers s))" by (simp add: inv_timers_def)
  have only: "e = (w, d, cb)" if "e \<in> set (timers s)" "fst e = w" for e
    using that tm dt by (metis eq_key_imp_eq_value prod.collapse)
  have obs': "timers ?s' = Map_delete w (timers s)" "pending ?s' = pending s"
    "nextTimer ?s' = nextTimer s" "heartbeatTimer ?s' = heartbeatTimer s" "idCounter ?s' = idCounter s"
    "\<And>ty. handlers_of ?s' ty = filter (\<lambda>h. waiter_of (snd h) \<noteq> Some w) (handlers_of s ty)"
    "nextHandler ?s' = nextHandler s"
    "\<And>w'. subscribed ?s' w' \<longleftrightarrow> subscribed s w' \<and> w' \<noteq> w"
    "\<And>p. settlements ?s' p = settlements s p @ (if p = WaiterP w then [out] else [])"
    "\<And>p. created ?s' p = created s p"
    by (auto simp: obs2)
  have gone: "w \<notin> fst ` set (Map_delete w (timers s))"
    by (auto simp: set_Map_delete)
  have sub: "set (Map_delete w (timers s)) \<subseteq> set (timers s)"
    by (auto simp: set_Map_delete)
  have keep: "e \<in> set (Map_delete w (timers s))" if "e \<in> set (timers s)" "fst e \<noteq> w" for e
    using that by (simp add: set_Map_delete)
  have 1: "inv_timers ?s'"
    using it unfolding inv_timers_def obs'
    by (auto simp: set_Map_delete distinct_Map_delete)
  have rok: "request_ok ?s' j" if r: "request_ok s j" for j
  proof -
    have k: "(t, d', RequestTimeout j ty) \<in> set (Map_delete w (timers s))"
      if "(t, d', RequestTimeout j ty) \<in> set (timers s)" for t d' ty
    proof (rule keep [OF that])
      show "fst (t, d', RequestTimeout j ty) \<noteq> w"
      proof
        assume "fst (t, d', RequestTimeout j ty) = w"
        from only [OF that this] cb show False by auto
      qed
    qed
    have s: "settlements s (RequestP j) @ (if RequestP j = WaiterP w then [out] else [])
             = settlements s (RequestP j)" by simp
    from r k show ?thesis unfolding request_ok_def obs' s by blast
  qed
  from ir have dp: "distinct (map fst (pending s))"
    and rc: "\<And>j. created s (RequestP j) \<Longrightarrow> request_ok s j"
    and nc: "\<And>j. \<not> created s (RequestP j) \<Longrightarrow> settlements s (RequestP j) = [] \<and> j \<notin> fst ` set (pending s)"
    and tp: "\<And>e j tyj. e \<in> set (timers s) \<Longrightarrow> snd (snd e) = RequestTimeout j tyj
               \<Longrightarrow> (j, fst e) \<in> set (pending s)"
    unfolding inv_requests_def by blast+
  have 2: "inv_requests ?s'"
    unfolding inv_requests_def obs'
  proof (intro conjI allI impI ballI)
    show "distinct (map fst (pending s))" by (rule dp)
  next
    fix j assume "created s (RequestP j)"
    then show "request_ok ?s' j" by (intro rok rc)
  next
    fix j assume n: "\<not> created s (RequestP j)"
    from nc [OF n] show "settlements s (RequestP j) @ (if RequestP j = WaiterP w then [out] else []) = []"
      by simp
    from nc [OF n] show "j \<notin> fst ` set (pending s)" by simp
  next
    fix e j tyj assume e: "e \<in> set (Map_delete w (timers s))" "snd (snd e) = RequestTimeout j tyj"
    from e(1) sub have "e \<in> set (timers s)" by blast
    from tp [OF this e(2)] show "(j, fst e) \<in> set (pending s)" .
  qed
  from iw have wc: "\<And>v. created s (WaiterP v) \<Longrightarrow> waiter_ok s v"
    and wn: "\<And>v. \<not> created s (WaiterP v) \<Longrightarrow> settlements s (WaiterP v) = [] \<and> \<not> subscribed s v"
    and wt: "\<And>e. e \<in> set (timers s) \<Longrightarrow> is_waiter_timeout (snd (snd e)) \<Longrightarrow> created s (WaiterP (fst e))"
    unfolding inv_waiters_def by blast+
  have wok: "waiter_ok ?s' v" if c: "created s (WaiterP v)" for v
  proof (cases "v = w")
    case True
    from wc [OF cr] have "w < nextTimer s" by (rule waiter_ok_bound)
    with True gone unsettled show ?thesis
      unfolding waiter_ok_def obs' by simp
  next
    case False
    from wc [OF c] have ok: "waiter_ok s v" .
    then have b: "v < nextTimer s" by (rule waiter_ok_bound)
    from False have s: "settlements s (WaiterP v) @ (if WaiterP v = WaiterP w then [out] else [])
             = settlements s (WaiterP v)" by simp
    from ok consider
      (A) d' cb' where "(v, d', cb') \<in> set (timers s)" "is_waiter_timeout cb'" "settlements s (WaiterP v) = []"
      | (B) "v \<notin> fst ` set (timers s)" "length (settlements s (WaiterP v)) = 1" "\<not> subscribed s v"
      unfolding waiter_ok_def by blast
    then show ?thesis
    proof cases
      case A
      from keep [OF A(1)] False have "(v, d', cb') \<in> set (Map_delete w (timers s))" by simp
      with A(2,3) b show ?thesis unfolding waiter_ok_def obs' s by blast
    next
      case B
      from B(1) sub have "v \<notin> fst ` set (Map_delete w (timers s))" by blast
      with B(2,3) b show ?thesis unfolding waiter_ok_def obs' s by blast
    qed
  qed
  have 3: "inv_waiters ?s'"
    unfolding inv_waiters_def obs'
  proof (intro conjI allI impI ballI)
    fix v assume "created s (WaiterP v)"
    then show "waiter_ok ?s' v" by (rule wok)
  next
    fix v assume n: "\<not> created s (WaiterP v)"
    with cr have "v \<noteq> w" by blast
    with wn [OF n] show "settlements s (WaiterP v) @ (if WaiterP v = WaiterP w then [out] else []) = []"
      by simp
    from wn [OF n] show "\<not> (subscribed s v \<and> v \<noteq> w)" by simp
  next
    fix e assume e: "e \<in> set (Map_delete w (timers s))" "is_waiter_timeout (snd (snd e))"
    from e(1) sub have "e \<in> set (timers s)" by blast
    from wt [OF this e(2)] show "created s (WaiterP (fst e))" .
  qed
  from ih have hd: "\<And>ty. distinct (map fst (handlers_of s ty))"
    and hb: "\<And>ty h. h \<in> set (handlers_of s ty) \<Longrightarrow> fst h < nextHandler s"
    and hu: "\<And>ty h h'. h \<in> set (handlers_of s ty) \<Longrightarrow> h' \<in> set (handlers_of s ty)
               \<Longrightarrow> waiter_of (snd h) = waiter_of (snd h') \<Longrightarrow> waiter_of (snd h) \<noteq> None \<Longrightarrow> h = h'"
    unfolding inv_handlers_def by blast+
  have 4: "inv_handlers ?s'"
    unfolding inv_handlers_def obs'
  proof (intro conjI allI impI ballI)
    fix ty show "distinct (map fst (filter (\<lambda>h. waiter_of (snd h) \<noteq> Some w) (handlers_of s ty)))"
      using hd [of ty] by (rule distinct_map_filter)
  next
    fix ty h assume "h \<in> set (filter (\<lambda>h. waiter_of (snd h) \<noteq> Some w) (handlers_of s ty))"
    then have "h \<in> set (handlers_of s ty)" by simp
    then show "fst h < nextHandler s" by (rule hb)
  next
    fix ty h h'
    assume "h \<in> set (filter (\<lambda>h. waiter_of (snd h) \<noteq> Some w) (handlers_of s ty))"
      "h' \<in> set (filter (\<lambda>h. waiter_of (snd h) \<noteq> Some w) (handlers_of s ty))"
      "waiter_of (snd h) = waiter_of (snd h')" "waiter_of (snd h) \<noteq> None"
    then have "h \<in> set (handlers_of s ty)" "h' \<in> set (handlers_of s ty)"
      "waiter_of (snd h) = waiter_of (snd h')" "waiter_of (snd h) \<noteq> None" by simp_all
    then show "h = h'" by (rule hu)
  qed
  show ?thesis unfolding invariant_def by (intro conjI 1 2 3 4)
qed

lemma clearTimeout_idem: "clearTimeout t (clearTimeout t s) = clearTimeout t s"
  by (simp add: clearTimeout_def Map_delete_def)

lemma invariant_unsubscribe_settle:
  assumes "invariant s" "(w, d, cb) \<in> set (timers s)" "is_waiter_timeout cb"
  shows "invariant (log_effect (Settled (WaiterP w) out) (unsubscribe_all w s))"
  unfolding unsubscribe_all_def by (rule invariant_settle_waiter [OF assms])

lemma invariant_unsubscribe_settle_logged:
  assumes "invariant s" "(w, d, cb) \<in> set (timers s)" "is_waiter_timeout cb" "quiet e"
  shows "invariant (log_effect (Settled (WaiterP w) out) (unsubscribe_all w (log_effect e s)))"
proof -
  from assms(1) same_core_log [OF assms(4)] have "invariant (log_effect e s)"
    by (rule invariant_same_core)
  moreover from assms(2) have "(w, d, cb) \<in> set (timers (log_effect e s))" by (simp add: obs2)
  ultimately show ?thesis using assms(3) by (rule invariant_unsubscribe_settle)
qed

subsection \<open>Handlers and dispatch\<close>

lemma distinct_fst_eq:
  "distinct (map fst xs) \<Longrightarrow> x \<in> set xs \<Longrightarrow> y \<in> set xs \<Longrightarrow> fst x = fst y \<Longrightarrow> x = y"
  by (auto simp: distinct_map dest: inj_onD)

lemma handler_waiting:
  assumes inv: "invariant s" and h: "(hid, f) \<in> set (handlers_of s ty)" and w: "waiter_of f = Some w"
  shows "\<exists>d cb. (w, d, cb) \<in> set (timers s) \<and> is_waiter_timeout cb"
proof -
  from h w have sub: "subscribed s w" unfolding subscribed_pair by blast
  from inv have iw: "inv_waiters s" by (simp add: invariant_def)
  from subscribed_waiting [OF iw sub] show ?thesis .
qed

lemma same_core_invoke_user:
  "same_core s (invoke cfg env (hid, UserFn f) s)"
  "same_core s (invoke cfg env (hid, WrappedFn f) s)"
proof -
  have l: "same_core s (log_effect (Invoked hid p) s)" for p by (rule same_core_log) simp
  note r = same_core_trans [OF l same_core_replyError] same_core_trans [OF l same_core_fields(6)]
  show "same_core s (invoke cfg env (hid, UserFn f) s)"
    by (cases "f (get_prop env ''payload'')") (simp_all add: Let_def l r)
  show "same_core s (invoke cfg env (hid, WrappedFn f) s)"
    by (cases "f (get_prop env ''payload'')") (simp_all add: Let_def l r)
qed

lemma invariant_invoke:
  assumes inv: "invariant s" and h: "(hid, f) \<in> set (handlers_of s ty)"
  shows "invariant (invoke cfg env (hid, f) s)"
proof (cases f)
  case (UserFn g)
  show ?thesis unfolding UserFn by (rule invariant_same_core [OF inv same_core_invoke_user(1)])
next
  case (WrappedFn g)
  show ?thesis unfolding WrappedFn by (rule invariant_same_core [OF inv same_core_invoke_user(2)])
next
  case (SendWaitFn w t m)
  then have "waiter_of f = Some w" by simp
  from handler_waiting [OF inv h this] obtain d cb
    where tm: "(w, d, cb) \<in> set (timers s)" "is_waiter_timeout cb" by blast
  show ?thesis unfolding SendWaitFn invoke.simps Let_def
    by (rule invariant_unsubscribe_settle_logged [OF inv tm]) simp
next
  case (WaitStatusFn w predicate)
  then have "waiter_of f = Some w" by simp
  from handler_waiting [OF inv h this] obtain d cb
    where tm: "(w, d, cb) \<in> set (timers s)" "is_waiter_timeout cb" by blast
  have a: "invariant (log_effect (Settled (WaiterP w) out)
             (unsubscribe_all w (log_effect (Invoked hid p) s)))" for out p
    by (rule invariant_unsubscribe_settle_logged [OF inv tm]) simp
  have b: "invariant (log_effect (Invoked hid p) s)" for p
    by (rule invariant_same_core [OF inv same_core_log]) simp
  show ?thesis unfolding WaitStatusFn invoke.simps Let_def
    by (simp add: a b split: option.splits bool.splits)
next
  case (WaitResultFn w)
  then have "waiter_of f = Some w" by simp
  from handler_waiting [OF inv h this] obtain d cb
    where tm: "(w, d, cb) \<in> set (timers s)" "is_waiter_timeout cb" by blast
  show ?thesis unfolding WaitResultFn invoke.simps Let_def
    by (rule invariant_unsubscribe_settle_logged [OF inv tm]) simp
qed

lemma handlers_of_unsubscribe_all:
  "handlers_of (unsubscribe_all w s) ty = filter (\<lambda>h. waiter_of (snd h) \<noteq> Some w) (handlers_of s ty)"
  by (simp add: unsubscribe_all_def obs2)

lemma handlers_of_invoke_subset:
  "set (handlers_of (invoke cfg env h s) ty) \<subseteq> set (handlers_of s ty)"
proof -
  obtain hid f where h: "h = (hid, f)" by (cases h)
  have l: "handlers_of (log_effect e s') = handlers_of s'" for e s' by (simp add: obs2)
  have r: "handlers_of (replyError cfg env m s') = handlers_of s'" for m s'
    by (rule same_core_handlers_of [OF same_core_replyError])
  show ?thesis
  proof (cases f)
    case (UserFn g)
    show ?thesis unfolding h UserFn
      by (cases "g (get_prop env ''payload'')") (simp_all add: Let_def l r handlers_of_frame)
  next
    case (WrappedFn g)
    show ?thesis unfolding h WrappedFn
      by (cases "g (get_prop env ''payload'')") (simp_all add: Let_def l r handlers_of_frame)
  next
    case (SendWaitFn w t m)
    show ?thesis unfolding h SendWaitFn
      by (simp add: Let_def l handlers_of_unsubscribe_all)
  next
    case (WaitStatusFn w predicate)
    show ?thesis unfolding h WaitStatusFn
      by (simp add: Let_def l handlers_of_unsubscribe_all split: option.splits bool.splits)
  next
    case (WaitResultFn w)
    show ?thesis unfolding h WaitResultFn
      by (simp add: Let_def l handlers_of_unsubscribe_all)
  qed
qed

lemma invariant_dispatch_loop:
  assumes "invariant s"
    and "\<forall>h\<in>set hs. \<forall>h'\<in>set (handlers_of s ty). fst h' = fst h \<longrightarrow> h' = h"
  shows "invariant (dispatch_loop cfg env ty hs s)"
  using assms
proof (induction hs arbitrary: s)
  case Nil
  then show ?case by simp
next
  case (Cons h hs)
  let ?s1 = "if fst h \<in> fst ` set (handlers_of s ty) then invoke cfg env h s else s"
  have 1: "invariant ?s1"
  proof (cases "fst h \<in> fst ` set (handlers_of s ty)")
    case True
    then obtain h' where h': "h' \<in> set (handlers_of s ty)" "fst h' = fst h" by force
    with Cons.prems(2) have "h' = h" by simp
    with h' have "(fst h, snd h) \<in> set (handlers_of s ty)" by simp
    from invariant_invoke [OF Cons.prems(1) this] True show ?thesis by simp
  next
    case False
    with Cons.prems(1) show ?thesis by simp
  qed
  have sub: "set (handlers_of ?s1 ty) \<subseteq> set (handlers_of s ty)"
    using handlers_of_invoke_subset [of cfg env h s ty] by simp
  have 2: "\<forall>k\<in>set hs. \<forall>h'\<in>set (handlers_of ?s1 ty). fst h' = fst k \<longrightarrow> h' = k"
  proof (intro ballI impI)
    fix k h' assume k: "k \<in> set hs" "h' \<in> set (handlers_of ?s1 ty)" "fst h' = fst k"
    from k(2) sub have "h' \<in> set (handlers_of s ty)" by blast
    with Cons.prems(2) k(1,3) show "h' = k" by simp
  qed
  from Cons.IH [OF 1 2] show ?case by simp
qed

lemma invariant_dispatch:
  assumes "invariant s"
  shows "invariant (dispatch_loop cfg env ty (handlers_of s ty) s)"
proof (rule invariant_dispatch_loop [OF assms], intro ballI impI)
  fix h h' assume h: "h \<in> set (handlers_of s ty)" "h' \<in> set (handlers_of s ty)" "fst h' = fst h"
  from assms have "distinct (map fst (handlers_of s ty))"
    by (simp add: invariant_def inv_handlers_def)
  from distinct_fst_eq [OF this h(2,1,3)] show "h' = h" .
qed

lemma invariant_settle_request_code:
  assumes "invariant s" "(i, t) \<in> set (pending s)"
  shows "invariant (log_effect (Settled (RequestP i) out)
                      ((clearTimeout t s)\<lparr>pending := Map_delete i (pending (clearTimeout t s))\<rparr>))"
  using invariant_settle_request [OF assms] by (simp add: obs2)

lemma pending_get_mem: "pending_get s key = Some (i, t) \<Longrightarrow> (i, t) \<in> set (pending s)"
  by (auto simp: pending_get_def split: jsval.splits option.splits dest: map_of_SomeD)

lemma invariant_handleMessage:
  assumes inv: "invariant s"
  shows "invariant (handleMessage cfg data s)"
proof (cases "decode_opt cfg data")
  case (Inl e)
  have "invariant (emit ''error'' (Caught e) s)"
    by (rule invariant_same_core [OF inv same_core_emit])
  moreover have "invariant (log_effect (Thrown e) s)"
    by (rule invariant_same_core [OF inv same_core_log]) simp
  ultimately show ?thesis by (simp add: handleMessage_def Inl)
next
  case (Inr env)
  show ?thesis
  proof (cases "pending_get s (get_prop env ''replyTo'')")
    case None
    with inv show ?thesis by (simp add: handleMessage_def Inr invariant_dispatch)
  next
    case (Some a)
    obtain i t where a: "a = (i, t)" by (cases a)
    from Some a have "(i, t) \<in> set (pending s)" by (simp add: pending_get_mem)
    from invariant_settle_request_code [OF inv this]
    show ?thesis using inv by (simp add: handleMessage_def Inr Some a Let_def invariant_dispatch)
  qed
qed

lemma invariant_on_message: "invariant s \<Longrightarrow> invariant (on_message cfg n data s)"
  by (simp add: on_message_def invariant_handleMessage)

subsection \<open>Timers\<close>

lemma invariant_timer_fires:
  assumes inv: "invariant s"
  shows "invariant (timer_fires cfg t ctor s)"
proof (cases "map_of (timers s) t")
  case None
  with inv show ?thesis by (simp add: timer_fires_def)
next
  case (Some a)
  obtain ms cb where a: "a = (ms, cb)" by (cases a)
  from Some a have tm: "(t, ms, cb) \<in> set (timers s)" by (simp add: map_of_SomeD)
  from inv have dt: "distinct (map fst (timers s))" by (simp add: invariant_def inv_timers_def)
  have only: "snd (snd e) = cb" if "e \<in> set (timers s)" "fst e = t" for e
  proof -
    from that tm dt have "e = (t, ms, cb)" by (metis eq_key_imp_eq_value prod.collapse)
    then show ?thesis by simp
  qed
  show ?thesis
  proof (cases cb)
    case (RequestTimeout i ty)
    from inv have "inv_requests s" by (simp add: invariant_def)
    with tm RequestTimeout have "(i, t) \<in> set (pending s)"
      unfolding inv_requests_def by force
    from invariant_settle_request_code [OF inv this]
    show ?thesis by (simp add: timer_fires_def Some a RequestTimeout Let_def)
  next
    case ReconnectTimer
    have "invariant (clearTimeout t s)"
    proof (rule invariant_clear_plain [OF inv], intro ballI impI)
      fix e assume "e \<in> set (timers s)" "fst e = t"
      from only [OF this] ReconnectTimer show "plain_timer (snd (snd e))" by simp
    qed
    from invariant_same_core [OF this same_core_connect]
    show ?thesis by (simp add: timer_fires_def Some a ReconnectTimer)
  next
    case HeartbeatTick
    from invariant_same_core [OF inv same_core_ws_send] inv
    show ?thesis by (simp add: timer_fires_def Some a HeartbeatTick)
  next
    case (SendWaitTimeout e)
    then have "is_waiter_timeout cb" by simp
    from invariant_settle_waiter [OF inv tm this]
    show ?thesis by (simp add: timer_fires_def Some a SendWaitTimeout unsubscribe_all_def clearTimeout_idem)
  next
    case WaitForTimeout
    then have "is_waiter_timeout cb" by simp
    from invariant_settle_waiter [OF inv tm this]
    show ?thesis by (simp add: timer_fires_def Some a WaitForTimeout unsubscribe_all_def clearTimeout_idem)
  qed
qed

subsection \<open>Subscriptions\<close>

lemma invariant_onType:
  assumes inv: "invariant s"
    and w: "\<And>w. waiter_of f = Some w \<Longrightarrow>
              (\<exists>d cb. (w, d, cb) \<in> set (timers s) \<and> is_waiter_timeout cb)
              \<and> (\<forall>h\<in>set (handlers_of s ty). waiter_of (snd h) \<noteq> Some w)"
  shows "invariant (onType ty f s)" (is "invariant ?s'")
proof -
  from inv have it: "inv_timers s" and ir: "inv_requests s" and iw: "inv_waiters s"
    and ih: "inv_handlers s" by (simp_all add: invariant_def)
  have "inv_timers ?s' = inv_timers s" by (simp add: inv_timers_def obs2)
  with it have 1: "inv_timers ?s'" by simp
  have "inv_requests ?s' = inv_requests s" by (simp add: inv_requests_def request_ok_def obs2)
  with ir have 2: "inv_requests ?s'" by simp
  from iw have wc: "\<And>v. created s (WaiterP v) \<Longrightarrow> waiter_ok s v"
    and wn: "\<And>v. \<not> created s (WaiterP v) \<Longrightarrow> settlements s (WaiterP v) = [] \<and> \<not> subscribed s v"
    and wt: "\<And>e. e \<in> set (timers s) \<Longrightarrow> is_waiter_timeout (snd (snd e)) \<Longrightarrow> created s (WaiterP (fst e))"
    unfolding inv_waiters_def by blast+
  have obs': "timers ?s' = timers s" "nextTimer ?s' = nextTimer s"
    "\<And>p. settlements ?s' p = settlements s p" "\<And>p. created ?s' p = created s p"
    "\<And>v. subscribed ?s' v \<longleftrightarrow> subscribed s v \<or> waiter_of f = Some v"
    by (simp_all add: obs2)
  have running: "v \<in> fst ` set (timers s)" "created s (WaiterP v)" if "waiter_of f = Some v" for v
  proof -
    from w [OF that] obtain d cb where tm: "(v, d, cb) \<in> set (timers s)" "is_waiter_timeout cb"
      by blast
    from tm(1) show "v \<in> fst ` set (timers s)" by force
    from waiter_timer_created [OF iw tm] show "created s (WaiterP v)" .
  qed
  have wok: "waiter_ok ?s' v" if ok: "waiter_ok s v" for v
  proof (cases "waiter_of f = Some v")
    case True
    from running(1) [OF True] ok show ?thesis unfolding waiter_ok_def obs' by blast
  next
    case False
    with ok show ?thesis unfolding waiter_ok_def obs' by blast
  qed
  have 3: "inv_waiters ?s'"
    unfolding inv_waiters_def obs'
  proof (intro conjI allI impI ballI)
    fix v assume "created s (WaiterP v)"
    then show "waiter_ok ?s' v" by (intro wok wc)
  next
    fix v assume n: "\<not> created s (WaiterP v)"
    from wn [OF n] show "settlements s (WaiterP v) = []" by simp
    from running(2) [of v] n have "waiter_of f \<noteq> Some v" by blast
    with wn [OF n] show "\<not> (subscribed s v \<or> waiter_of f = Some v)" by simp
  next
    fix e assume "e \<in> set (timers s)" "is_waiter_timeout (snd (snd e))"
    then show "created s (WaiterP (fst e))" by (rule wt)
  qed
  from ih have hd: "\<And>ty. distinct (map fst (handlers_of s ty))"
    and hb: "\<And>ty h. h \<in> set (handlers_of s ty) \<Longrightarrow> fst h < nextHandler s"
    and hu: "\<And>ty h h'. h \<in> set (handlers_of s ty) \<Longrightarrow> h' \<in> set (handlers_of s ty)
               \<Longrightarrow> waiter_of (snd h) = waiter_of (snd h') \<Longrightarrow> waiter_of (snd h) \<noteq> None \<Longrightarrow> h = h'"
    unfolding inv_handlers_def by blast+
  have new: "nextHandler s \<notin> fst ` set (handlers_of s ty)"
  proof
    assume "nextHandler s \<in> fst ` set (handlers_of s ty)"
    then obtain h where "h \<in> set (handlers_of s ty)" "fst h = nextHandler s" by force
    with hb [of h ty] show False by simp
  qed
  have 4: "inv_handlers ?s'"
    unfolding inv_handlers_def
  proof (intro conjI allI impI ballI)
    fix ty' show "distinct (map fst (handlers_of ?s' ty'))"
      using hd [of ty'] hd [of ty] new by (simp add: obs2)
  next
    fix ty' h assume "h \<in> set (handlers_of ?s' ty')"
    then have "h \<in> set (handlers_of s ty') \<or> h = (nextHandler s, f)"
      by (auto simp: obs2 split: if_splits)
    then show "fst h < nextHandler ?s'"
    proof
      assume "h \<in> set (handlers_of s ty')"
      from hb [OF this] show ?thesis by (simp add: obs2)
    next
      assume "h = (nextHandler s, f)"
      then show ?thesis by (simp add: obs2)
    qed
  next
    fix ty' h h'
    assume a: "h \<in> set (handlers_of ?s' ty')" "h' \<in> set (handlers_of ?s' ty')"
      "waiter_of (snd h) = waiter_of (snd h')" "waiter_of (snd h) \<noteq> None"
    show "h = h'"
    proof (cases "ty' = ty")
      case False
      with a(1,2) have "h \<in> set (handlers_of s ty')" "h' \<in> set (handlers_of s ty')"
        by (simp_all add: obs2)
      from hu [OF this a(3,4)] show ?thesis .
    next
      case True
      from a(1,2) True have m: "h \<in> set (handlers_of s ty) \<or> h = (nextHandler s, f)"
        "h' \<in> set (handlers_of s ty) \<or> h' = (nextHandler s, f)"
        by (auto simp: obs2)
      have clash: False if "k \<in> set (handlers_of s ty)" "waiter_of (snd k) = waiter_of f"
        "waiter_of f \<noteq> None" for k
      proof -
        from that(3) obtain v where v: "waiter_of f = Some v" by blast
        from w [OF v] that(1) have "waiter_of (snd k) \<noteq> Some v" by blast
        with that(2) v show False by simp
      qed
      from m show ?thesis
      proof (elim disjE)
        assume "h \<in> set (handlers_of s ty)" "h' \<in> set (handlers_of s ty)"
        from hu [OF this a(3,4)] show ?thesis .
      next
        assume x: "h \<in> set (handlers_of s ty)" "h' = (nextHandler s, f)"
        from clash [OF x(1)] a(3,4) x(2) show ?thesis by simp
      next
        assume x: "h = (nextHandler s, f)" "h' \<in> set (handlers_of s ty)"
        from clash [OF x(2)] a(3,4) x(1) show ?thesis by simp
      next
        assume "h = (nextHandler s, f)" "h' = (nextHandler s, f)"
        then show ?thesis by simp
      qed
    qed
  qed
  show ?thesis unfolding invariant_def by (intro conjI 1 2 3 4)
qed

lemma invariant_onType_user:
  "invariant s \<Longrightarrow> waiter_of f = None \<Longrightarrow> invariant (onType ty f s)"
  by (rule invariant_onType) simp_all

lemma invariant_offType:
  assumes inv: "invariant s"
  shows "invariant (offType ty hid s)" (is "invariant ?s'")
proof -
  from inv have it: "inv_timers s" and ir: "inv_requests s" and iw: "inv_waiters s"
    and ih: "inv_handlers s" by (simp_all add: invariant_def)
  have "inv_timers ?s' = inv_timers s" by (simp add: inv_timers_def obs2)
  with it have 1: "inv_timers ?s'" by simp
  have "inv_requests ?s' = inv_requests s" by (simp add: inv_requests_def request_ok_def obs2)
  with ir have 2: "inv_requests ?s'" by simp
  from iw have wc: "\<And>v. created s (WaiterP v) \<Longrightarrow> waiter_ok s v"
    and wn: "\<And>v. \<not> created s (WaiterP v) \<Longrightarrow> settlements s (WaiterP v) = [] \<and> \<not> subscribed s v"
    and wt: "\<And>e. e \<in> set (timers s) \<Longrightarrow> is_waiter_timeout (snd (snd e)) \<Longrightarrow> created s (WaiterP (fst e))"
    unfolding inv_waiters_def by blast+
  have obs': "timers ?s' = timers s" "nextTimer ?s' = nextTimer s"
    "\<And>p. settlements ?s' p = settlements s p" "\<And>p. created ?s' p = created s p"
    by (simp_all add: obs2)
  have ns: "\<not> subscribed ?s' v" if "\<not> subscribed s v" for v
    using that subscribed_offType by blast
  have wok: "waiter_ok ?s' v" if ok: "waiter_ok s v" for v
    using ok ns [of v] unfolding waiter_ok_def obs' by blast
  have 3: "inv_waiters ?s'"
    unfolding inv_waiters_def obs'
  proof (intro conjI allI impI ballI)
    fix v assume "created s (WaiterP v)"
    then show "waiter_ok ?s' v" by (intro wok wc)
  next
    fix v assume n: "\<not> created s (WaiterP v)"
    from wn [OF n] show "settlements s (WaiterP v) = []" by simp
    from wn [OF n] show "\<not> subscribed ?s' v" by (intro ns) simp
  next
    fix e assume "e \<in> set (timers s)" "is_waiter_timeout (snd (snd e))"
    then show "created s (WaiterP (fst e))" by (rule wt)
  qed
  from ih have hd: "\<And>ty. distinct (map fst (handlers_of s ty))"
    and hb: "\<And>ty h. h \<in> set (handlers_of s ty) \<Longrightarrow> fst h < nextHandler s"
    and hu: "\<And>ty h h'. h \<in> set (handlers_of s ty) \<Longrightarrow> h' \<in> set (handlers_of s ty)
               \<Longrightarrow> waiter_of (snd h) = waiter_of (snd h') \<Longrightarrow> waiter_of (snd h) \<noteq> None \<Longrightarrow> h = h'"
    unfolding inv_handlers_def by blast+
  have sub: "h \<in> set (handlers_of s ty')" if "h \<in> set (handlers_of ?s' ty')" for h ty'
    using that by (simp add: obs2 set_Map_delete split: if_splits)
  have 4: "inv_handlers ?s'"
    unfolding inv_handlers_def
  proof (intro conjI allI impI ballI)
    fix ty' show "distinct (map fst (handlers_of ?s' ty'))"
      using hd [of ty'] hd [of ty] by (simp add: obs2 distinct_Map_delete)
  next
    fix ty' h assume "h \<in> set (handlers_of ?s' ty')"
    from hb [OF sub [OF this]] show "fst h < nextHandler ?s'" by (simp add: obs2)
  next
    fix ty' h h'
    assume a: "h \<in> set (handlers_of ?s' ty')" "h' \<in> set (handlers_of ?s' ty')"
      "waiter_of (snd h) = waiter_of (snd h')" "waiter_of (snd h) \<noteq> None"
    from hu [OF sub [OF a(1)] sub [OF a(2)] a(3,4)] show "h = h'" .
  qed
  show ?thesis unfolding invariant_def by (intro conjI 1 2 3 4)
qed

subsection \<open>New waiters\<close>

lemma waiter_not_request: "is_waiter_timeout cb \<Longrightarrow> \<not> is_request_timeout cb"
  by (cases cb) simp_all

lemma fresh_waiter:
  assumes "inv_waiters s"
  shows "\<not> created s (WaiterP (nextTimer s))"
proof
  assume "created s (WaiterP (nextTimer s))"
  from waiter_ok_bound [OF created_waiter_ok [OF assms this]] show False by simp
qed

lemma invariant_new_waiter:
  assumes inv: "invariant s" and cb: "is_waiter_timeout cb"
  shows "invariant (setTimeout d cb (log_effect (Created (WaiterP (nextTimer s))) s))"
    (is "invariant ?s'")
proof -
  let ?w = "nextTimer s"
  let ?s0 = "log_effect (Created (WaiterP ?w)) s"
  from inv have it: "inv_timers s" and ir: "inv_requests s" and iw: "inv_waiters s"
    and ih: "inv_handlers s" by (simp_all add: invariant_def)
  have "inv_timers ?s0 = inv_timers s" by (simp add: inv_timers_def obs2)
  with it have it0: "inv_timers ?s0" by simp
  have "inv_requests ?s0 = inv_requests s" by (simp add: inv_requests_def request_ok_def obs2)
  with ir have ir0: "inv_requests ?s0" by simp
  have 1: "inv_timers ?s'" by (rule inv_timers_setTimeout [OF it0])
  have 2: "inv_requests ?s'" by (rule inv_requests_setTimeout [OF it0 ir0 waiter_not_request [OF cb]])
  from iw have wc: "\<And>v. created s (WaiterP v) \<Longrightarrow> waiter_ok s v"
    and wn: "\<And>v. \<not> created s (WaiterP v) \<Longrightarrow> settlements s (WaiterP v) = [] \<and> \<not> subscribed s v"
    and wt: "\<And>e. e \<in> set (timers s) \<Longrightarrow> is_waiter_timeout (snd (snd e)) \<Longrightarrow> created s (WaiterP (fst e))"
    unfolding inv_waiters_def by blast+
  from fresh_waiter [OF iw] have fresh: "\<not> created s (WaiterP ?w)" .
  have obs': "timers ?s' = timers s @ [(?w, d, cb)]" "nextTimer ?s' = Suc ?w"
    "\<And>p. settlements ?s' p = settlements s p"
    "\<And>p. created ?s' p \<longleftrightarrow> created s p \<or> p = WaiterP ?w"
    "subscribed ?s' = subscribed s"
    by (auto simp: obs2)
  have wok: "waiter_ok ?s' v" if ok: "waiter_ok s v" for v
  proof -
    from ok have b: "v < ?w" by (rule waiter_ok_bound)
    then have b': "v < Suc ?w" by simp
    from ok consider
      (A) d' cb' where "(v, d', cb') \<in> set (timers s)" "is_waiter_timeout cb'" "settlements s (WaiterP v) = []"
      | (B) "v \<notin> fst ` set (timers s)" "length (settlements s (WaiterP v)) = 1" "\<not> subscribed s v"
      unfolding waiter_ok_def by blast
    then show ?thesis
    proof cases
      case A
      from A(1) have "(v, d', cb') \<in> set (timers s @ [(?w, d, cb)])" by simp
      with A(2,3) b' show ?thesis unfolding waiter_ok_def obs' by blast
    next
      case B
      from B(1) b have "v \<notin> fst ` set (timers s @ [(?w, d, cb)])" by auto
      with B(2,3) b' show ?thesis unfolding waiter_ok_def obs' by blast
    qed
  qed
  have wnew: "waiter_ok ?s' ?w"
  proof -
    have "(?w, d, cb) \<in> set (timers s @ [(?w, d, cb)])" by simp
    with cb wn [OF fresh] show ?thesis unfolding waiter_ok_def obs' by blast
  qed
  have 3: "inv_waiters ?s'"
    unfolding inv_waiters_def obs'
  proof (intro conjI allI impI ballI)
    fix v assume "created s (WaiterP v) \<or> WaiterP v = WaiterP ?w"
    then consider "created s (WaiterP v)" | "v = ?w" by auto
    then show "waiter_ok ?s' v"
    proof cases
      case 1
      then show ?thesis by (intro wok wc)
    next
      case 2
      with wnew show ?thesis by simp
    qed
  next
    fix v assume n: "\<not> (created s (WaiterP v) \<or> WaiterP v = WaiterP ?w)"
    then have n': "\<not> created s (WaiterP v)" by blast
    from wn [OF n'] show "settlements s (WaiterP v) = []" by simp
    from wn [OF n'] show "\<not> subscribed s v" by simp
  next
    fix e assume e: "e \<in> set (timers s @ [(?w, d, cb)])" "is_waiter_timeout (snd (snd e))"
    show "created s (WaiterP (fst e)) \<or> WaiterP (fst e) = WaiterP ?w"
    proof (cases "e \<in> set (timers s)")
      case True
      from wt [OF True e(2)] show ?thesis by simp
    next
      case False
      with e(1) show ?thesis by simp
    qed
  qed
  have "inv_handlers ?s' = inv_handlers s"
    by (rule inv_handlers_cong) (simp_all add: obs2)
  with ih have 4: "inv_handlers ?s'" by simp
  show ?thesis unfolding invariant_def by (intro conjI 1 2 3 4)
qed

lemma new_waiter_unsubscribed:
  assumes inv: "invariant s"
  shows "\<not> subscribed (setTimeout d cb (log_effect (Created (WaiterP (nextTimer s))) s)) (nextTimer s)"
proof -
  from inv have iw: "inv_waiters s" by (simp add: invariant_def)
  from fresh_waiter [OF iw] iw have "\<not> subscribed s (nextTimer s)"
    unfolding inv_waiters_def by blast
  then show ?thesis by (simp add: obs2)
qed

lemma invariant_subscribe_fold:
  assumes "invariant s" "(w, d, cb) \<in> set (timers s)" "is_waiter_timeout cb" "distinct ts"
    "\<forall>t\<in>set ts. \<forall>h\<in>set (handlers_of s t). waiter_of (snd h) \<noteq> Some w"
  shows "invariant (foldl (\<lambda>st t. onType t (SendWaitFn w t m) st) s ts)"
  using assms
proof (induction ts arbitrary: s)
  case Nil
  then show ?case by simp
next
  case (Cons t ts)
  let ?s1 = "onType t (SendWaitFn w t m) s"
  have 1: "invariant ?s1"
  proof (rule invariant_onType [OF Cons.prems(1)])
    fix v assume "waiter_of (SendWaitFn w t m) = Some v"
    then have v: "v = w" by simp
    from Cons.prems(2,3,5)
    show "(\<exists>d cb. (v, d, cb) \<in> set (timers s) \<and> is_waiter_timeout cb)
          \<and> (\<forall>h\<in>set (handlers_of s t). waiter_of (snd h) \<noteq> Some v)"
      unfolding v by auto
  qed
  from Cons.prems(2) have 2: "(w, d, cb) \<in> set (timers ?s1)" by (simp add: obs2)
  from Cons.prems(4) have 4: "distinct ts" and nt: "t \<notin> set ts" by simp_all
  have 5: "\<forall>t'\<in>set ts. \<forall>h\<in>set (handlers_of ?s1 t'). waiter_of (snd h) \<noteq> Some w"
  proof (intro ballI)
    fix t' h assume t': "t' \<in> set ts" and h: "h \<in> set (handlers_of ?s1 t')"
    from t' nt have "t' \<noteq> t" by blast
    with h have "h \<in> set (handlers_of s t')" by (simp add: obs2)
    with Cons.prems(5) t' show "waiter_of (snd h) \<noteq> Some w" by simp
  qed
  from Cons.IH [OF 1 2 Cons.prems(3) 4 5] show ?case by simp
qed

lemma unsubscribed_handlers:
  "\<not> subscribed s w \<Longrightarrow> \<forall>h\<in>set (handlers_of s t). waiter_of (snd h) \<noteq> Some w"
  unfolding subscribed_iff by blast

lemma invariant_sendAndWait:
  assumes inv: "invariant s" and d: "distinct expectList"
  shows "invariant (sendAndWait cfg ty payload expectList timeoutMs s)"
proof (cases "ws_is_open s")
  case False
  from invariant_same_core [OF inv same_core_log, of "Thrown (Error ''socket not open'')"] False
  show ?thesis by (simp add: sendAndWait_def)
next
  case True
  let ?s1 = "ws_send (encode_opt cfg (send_envelope ty payload)) s"
  let ?w = "nextTimer ?s1"
  let ?s3 = "setTimeout timeoutMs (SendWaitTimeout expectList) (log_effect (Created (WaiterP ?w)) ?s1)"
  from invariant_same_core [OF inv same_core_ws_send] have i1: "invariant ?s1" .
  have i3: "invariant ?s3" by (rule invariant_new_waiter [OF i1]) simp
  have tm: "(?w, timeoutMs, SendWaitTimeout expectList) \<in> set (timers ?s3)" by (simp add: obs2)
  from new_waiter_unsubscribed [OF i1] have "\<not> subscribed ?s3 ?w" .
  then have un: "\<forall>t\<in>set expectList. \<forall>h\<in>set (handlers_of ?s3 t). waiter_of (snd h) \<noteq> Some ?w"
    using unsubscribed_handlers by blast
  have "invariant (foldl (\<lambda>st t. onType t (SendWaitFn ?w t m) st) ?s3 expectList)" for m
    by (rule invariant_subscribe_fold [OF i3 tm _ d un]) simp
  with True show ?thesis by (simp add: sendAndWait_def Let_def)
qed

lemma invariant_waitFor_subscribed:
  fixes d :: int
  assumes inv: "invariant s"
  shows "invariant (onType ''ENROLLMENT_RESULT'' (WaitResultFn (nextTimer s))
           (onType ''ENROLLMENT_STATUS'' (WaitStatusFn (nextTimer s) predicate)
             (setTimeout d WaitForTimeout (log_effect (Created (WaiterP (nextTimer s))) s))))"
proof -
  let ?w = "nextTimer s"
  let ?s2 = "setTimeout d WaitForTimeout (log_effect (Created (WaiterP ?w)) s)"
  let ?s3 = "onType ''ENROLLMENT_STATUS'' (WaitStatusFn ?w predicate) ?s2"
  have i2: "invariant ?s2" by (rule invariant_new_waiter [OF inv]) simp
  have tm: "(?w, d, WaitForTimeout) \<in> set (timers ?s2)" by (simp add: obs2)
  from new_waiter_unsubscribed [OF inv] have un: "\<not> subscribed ?s2 ?w" .
  have i3: "invariant ?s3"
  proof (rule invariant_onType [OF i2])
    fix v assume "waiter_of (WaitStatusFn ?w predicate) = Some v"
    then have v: "v = ?w" by simp
    from tm unsubscribed_handlers [OF un]
    show "(\<exists>d cb. (v, d, cb) \<in> set (timers ?s2) \<and> is_waiter_timeout cb)
          \<and> (\<forall>h\<in>set (handlers_of ?s2 ''ENROLLMENT_STATUS''). waiter_of (snd h) \<noteq> Some v)"
      unfolding v by (intro conjI exI [of _ d] exI [of _ WaitForTimeout]) simp_all
  qed
  show ?thesis
  proof (rule invariant_onType [OF i3])
    fix v assume "waiter_of (WaitResultFn ?w) = Some v"
    then have v: "v = ?w" by simp
    from tm have tm3: "(?w, d, WaitForTimeout) \<in> set (timers ?s3)" by (simp add: obs2)
    have "handlers_of ?s3 ''ENROLLMENT_RESULT'' = handlers_of ?s2 ''ENROLLMENT_RESULT''"
      by (simp add: handlers_of_onType)
    with tm3 unsubscribed_handlers [OF un, of "''ENROLLMENT_RESULT''"]
    show "(\<exists>d cb. (v, d, cb) \<in> set (timers ?s3) \<and> is_waiter_timeout cb)
          \<and> (\<forall>h\<in>set (handlers_of ?s3 ''ENROLLMENT_RESULT''). waiter_of (snd h) \<noteq> Some v)"
      unfolding v by (intro conjI exI [of _ d] exI [of _ WaitForTimeout]) simp_all
  qed
qed

lemma invariant_waitFor:
  assumes inv: "invariant s"
  shows "invariant (waitFor predicate timeoutMs s)"
  unfolding waitFor_def Let_def by (rule invariant_waitFor_subscribed [OF inv])

subsection \<open>Every reachable state\<close>

lemma invariant_init: "invariant (init a)"
  by (simp add: invariant_def inv_timers_def inv_requests_def inv_waiters_def inv_handlers_def
      init_def created_def settlements_def subscribed_def handlers_of_def)

lemma invariant_client_step: "invariant s \<Longrightarrow> invariant (client_step cfg c s)"
  by (cases c)
     (simp_all add: requestManagerInfo_def enroll_def sign_def sendStatus_def checkPIN_def
       invariant_sendAndWait invariant_waitFor invariant_onType_user)

lemma invariant_step: "invariant s \<Longrightarrow> invariant (step cfg e s)"
  by (cases e)
     (simp_all add: invariant_client_step invariant_same_core [OF _ same_core_connect]
       invariant_close invariant_same_core [OF _ same_core_send] invariant_request
       invariant_onType_user invariant_offType invariant_on_open invariant_on_message
       invariant_same_core [OF _ same_core_on_error] invariant_on_close invariant_timer_fires
       invariant_same_core [OF _ same_core_run_rejection])

lemma invariant_run: "invariant s \<Longrightarrow> invariant (run cfg evs s)"
  unfolding run_def by (induction evs arbitrary: s) (simp_all add: invariant_step)

lemma invariant_reachable: "invariant (run cfg evs (init a))"
  by (rule invariant_run [OF invariant_init])

subsection \<open>What a step appends to the trace\<close>

lemma adds_refl: "adds P s s"
  by (simp add: adds_def)

lemma adds_trans: "adds P s s' \<Longrightarrow> adds P s' s'' \<Longrightarrow> adds P s s''"
  unfolding adds_def
proof -
  assume "\<exists>xs. trace s' = trace s @ xs \<and> list_all P xs" "\<exists>ys. trace s'' = trace s' @ ys \<and> list_all P ys"
  then obtain xs ys where "trace s' = trace s @ xs" "list_all P xs" "trace s'' = trace s' @ ys" "list_all P ys"
    by blast
  then have "trace s'' = trace s @ (xs @ ys) \<and> list_all P (xs @ ys)" by simp
  then show "\<exists>zs. trace s'' = trace s @ zs \<and> list_all P zs" by blast
qed

lemma adds_mono: "adds P s s' \<Longrightarrow> (\<And>e. P e \<Longrightarrow> Q e) \<Longrightarrow> adds Q s s'"
  unfolding adds_def list_all_iff by blast

lemma adds_same: "trace s'' = trace s' \<Longrightarrow> adds P s s' \<Longrightarrow> adds P s s''"
  by (simp add: adds_def)

lemma adds_log: "P e \<Longrightarrow> adds P s s' \<Longrightarrow> adds P s (log_effect e s')"
  by (rule adds_trans [of P s s']) (simp_all add: adds_def log_effect_def)

lemma adds_emit: "P (Emitted name arg) \<Longrightarrow> adds P s s' \<Longrightarrow> adds P s (emit name arg s')"
  by (simp add: emit_def adds_log)

lemma adds_ws_send: "(\<And>n. P (Sent n frame)) \<Longrightarrow> adds P s s' \<Longrightarrow> adds P s (ws_send frame s')"
  by (cases "ws s'") (simp_all add: ws_send_def adds_log)

lemma adds_fields:
  "adds P s s' \<Longrightarrow> adds P s (setTimeout d cb s')"
  "adds P s s' \<Longrightarrow> adds P s (clearTimeout t s')"
  "adds P s s' \<Longrightarrow> adds P s (onType ty f s')"
  "adds P s s' \<Longrightarrow> adds P s (offType ty hid s')"
  "adds P s s' \<Longrightarrow> adds P s (remove_waiter w s')"
  "adds P s s' \<Longrightarrow> adds P s (unsubscribe_all w s')"
  "adds P s s' \<Longrightarrow> adds P s (clearHeartbeat s')"
  "adds P s s' \<Longrightarrow> adds P s (startHeartbeat cfg s')"
  "adds P s s' \<Longrightarrow> adds P s (autoReconnect_update f1 s')"
  "adds P s s' \<Longrightarrow> adds P s (ws_update f2 s')"
  "adds P s s' \<Longrightarrow> adds P s (connected_flag_update f3 s')"
  "adds P s s' \<Longrightarrow> adds P s (reconnectAttempts_update f4 s')"
  "adds P s s' \<Longrightarrow> adds P s (heartbeatTimer_update f5 s')"
  "adds P s s' \<Longrightarrow> adds P s (pending_update f6 s')"
  "adds P s s' \<Longrightarrow> adds P s (handlers_update f7 s')"
  "adds P s s' \<Longrightarrow> adds P s (idCounter_update f8 s')"
  "adds P s s' \<Longrightarrow> adds P s (sockets_update f9 s')"
  "adds P s s' \<Longrightarrow> adds P s (timers_update f10 s')"
  "adds P s s' \<Longrightarrow> adds P s (nextTimer_update f11 s')"
  "adds P s s' \<Longrightarrow> adds P s (nextHandler_update f12 s')"
  "adds P s s' \<Longrightarrow> adds P s (rejections_update f13 s')"
  by (erule adds_same [rotated],
      simp add: setTimeout_def clearTimeout_def onType_def offType_def remove_waiter_def
        unsubscribe_all_def clearHeartbeat_def startHeartbeat_def split: option.splits)+

lemma adds_if:
  "(c \<Longrightarrow> adds P s a) \<Longrightarrow> (\<not> c \<Longrightarrow> adds P s b) \<Longrightarrow> adds P s (if c then a else b)"
  by simp

lemmas adds_intros = adds_refl adds_log adds_emit adds_ws_send adds_fields adds_if

text \<open>Reading settlements and creations through \<open>adds\<close>.\<close>

lemma settlements_append:
  "trace s' = trace s @ xs \<Longrightarrow> settlements s' p = settlements s p @ concat (map (settled_by p) xs)"
  by (simp add: settlements_def settled_by_def [abs_def])

lemma settled_by_request: "\<not> settles_request e \<Longrightarrow> settled_by (RequestP i) e = []"
  by (cases e rule: settles_request.cases) simp_all

lemma settled_by_waiter: "\<not> settles_waiter e \<Longrightarrow> settled_by (WaiterP w) e = []"
  by (cases e rule: settles_waiter.cases) simp_all

lemma adds_requests:
  assumes "adds (\<lambda>e. \<not> settles_request e) s s'"
  shows "settlements s' (RequestP i) = settlements s (RequestP i)"
proof -
  from assms obtain xs where xs: "trace s' = trace s @ xs" "list_all (\<lambda>e. \<not> settles_request e) xs"
    unfolding adds_def by blast
  from xs(2) have "concat (map (settled_by (RequestP i)) xs) = []"
    by (induction xs) (simp_all add: settled_by_request)
  with settlements_append [OF xs(1)] show ?thesis by simp
qed

lemma adds_waiters:
  assumes "adds (\<lambda>e. \<not> settles_waiter e) s s'"
  shows "settlements s' (WaiterP w) = settlements s (WaiterP w)"
proof -
  from assms obtain xs where xs: "trace s' = trace s @ xs" "list_all (\<lambda>e. \<not> settles_waiter e) xs"
    unfolding adds_def by blast
  from xs(2) have "concat (map (settled_by (WaiterP w)) xs) = []"
    by (induction xs) (simp_all add: settled_by_waiter)
  with settlements_append [OF xs(1)] show ?thesis by simp
qed

lemma adds_created: "adds P s s' \<Longrightarrow> created s p \<Longrightarrow> created s' p"
  unfolding adds_def created_def by auto

lemma adds_settlements_prefix: "adds P s s' \<Longrightarrow> \<exists>ys. settlements s' p = settlements s p @ ys"
  unfolding adds_def using settlements_append by blast

subsection \<open>The methods\<close>

lemma adds_connect:
  "(\<And>n. P (Created (ConnectP n))) \<Longrightarrow> (\<And>n out. P (Settled (ConnectP n) out))
   \<Longrightarrow> adds P s (connect ctor s)"
  by (cases ctor) (simp_all add: connect_def Let_def adds_intros)

lemma adds_close: "adds P s (close s)"
  by (cases "ws s") (simp_all add: close_def Let_def adds_intros)

lemma adds_send:
  "(\<And>err. P (Thrown err)) \<Longrightarrow> (\<And>n v. P (Sent n v)) \<Longrightarrow> adds P s (send cfg ty p s)"
  by (simp add: send_def adds_intros)

lemma adds_request:
  "(\<And>err. P (Thrown err)) \<Longrightarrow> (\<And>n v. P (Sent n v)) \<Longrightarrow> (\<And>i. P (Created (RequestP i)))
   \<Longrightarrow> adds P s (request cfg ty p ms now s)"
  by (simp add: request_def Let_def adds_intros)

lemma adds_subscribe_fold:
  "adds P s s' \<Longrightarrow> adds P s (foldl (\<lambda>st t. onType t (g t) st) s' ts)"
  by (induction ts arbitrary: s') (simp_all add: adds_intros)

lemma adds_sendAndWait:
  "(\<And>err. P (Thrown err)) \<Longrightarrow> (\<And>n v. P (Sent n v)) \<Longrightarrow> (\<And>w. P (Created (WaiterP w)))
   \<Longrightarrow> adds P s (sendAndWait cfg ty p ex ms s)"
  by (simp add: sendAndWait_def Let_def adds_intros adds_subscribe_fold)

lemma adds_waitFor:
  "(\<And>w. P (Created (WaiterP w))) \<Longrightarrow> adds P s (waitFor predicate ms s)"
  by (simp add: waitFor_def Let_def adds_intros)

lemma adds_client_step:
  "(\<And>err. P (Thrown err)) \<Longrightarrow> (\<And>n v. P (Sent n v)) \<Longrightarrow> (\<And>w. P (Created (WaiterP w)))
   \<Longrightarrow> adds P s (client_step cfg c s)"
  by (cases c)
     (simp_all add: requestManagerInfo_def enroll_def sign_def sendStatus_def checkPIN_def
       adds_sendAndWait adds_waitFor adds_intros)

lemma adds_on_open:
  "(\<And>nm a. P (Emitted nm a)) \<Longrightarrow> (\<And>n out. P (Settled (ConnectP n) out))
   \<Longrightarrow> adds P s (on_open cfg n s)"
  by (simp add: on_open_def Let_def adds_intros)

lemma adds_on_error: "(\<And>nm a. P (Emitted nm a)) \<Longrightarrow> adds P s (on_error n s)"
  by (simp add: on_error_def adds_intros)

lemma adds_sendReply: "(\<And>n v. P (Sent n v)) \<Longrightarrow> adds P s s' \<Longrightarrow> adds P s (sendReply cfg to p err s')"
  by (simp add: sendReply_def adds_intros)

lemma adds_replyError: "(\<And>n v. P (Sent n v)) \<Longrightarrow> adds P s s' \<Longrightarrow> adds P s (replyError cfg env m s')"
  by (simp add: replyError_def adds_sendReply)

lemma adds_run_rejection: "(\<And>n v. P (Sent n v)) \<Longrightarrow> adds P s (run_rejection cfg i s)"
  by (simp add: run_rejection_def Let_def adds_intros adds_replyError)

lemma adds_fail_loop:
  "(\<And>i out. P (Settled (RequestP i) out)) \<Longrightarrow> adds P s s' \<Longrightarrow> adds P s (fail_loop err ps s')"
proof (induction ps arbitrary: s')
  case Nil
  then show ?case by simp
next
  case (Cons p ps)
  obtain a b where p: "p = (a, b)" by (cases p)
  show ?case unfolding p fail_loop.simps Let_def
    by (intro Cons.IH Cons.prems adds_intros)
qed

lemma adds_scheduleReconnect:
  "(\<And>nm a. P (Emitted nm a)) \<Longrightarrow> adds P s s' \<Longrightarrow> adds P s (scheduleReconnect cfg rnd s')"
  by (simp add: scheduleReconnect_def Let_def adds_intros)

lemma adds_on_close:
  "(\<And>nm a. P (Emitted nm a)) \<Longrightarrow> (\<And>i out. P (Settled (RequestP i) out))
   \<Longrightarrow> adds P s (on_close cfg n rnd s)"
  by (simp add: on_close_def Let_def failAllPending_def adds_intros adds_fail_loop
      adds_scheduleReconnect)

lemma adds_invoke:
  assumes "\<And>hid v. P (Invoked hid v)" "\<And>n v. P (Sent n v)" "\<And>w out. P (Settled (WaiterP w) out)"
  shows "adds P s s' \<Longrightarrow> adds P s (invoke cfg env h s')"
proof -
  assume a: "adds P s s'"
  obtain hid f where h: "h = (hid, f)" by (cases h)
  show ?thesis
  proof (cases f)
    case (UserFn g)
    show ?thesis unfolding h UserFn
      by (cases "g (get_prop env ''payload'')") (simp_all add: Let_def a assms adds_intros adds_replyError)
  next
    case (WrappedFn g)
    show ?thesis unfolding h WrappedFn
      by (cases "g (get_prop env ''payload'')") (simp_all add: Let_def a assms adds_intros adds_replyError)
  next
    case (SendWaitFn w t m)
    show ?thesis unfolding h SendWaitFn by (simp add: Let_def a assms adds_intros)
  next
    case (WaitStatusFn w predicate)
    show ?thesis unfolding h WaitStatusFn
      by (simp add: Let_def a assms adds_intros split: option.splits bool.splits)
  next
    case (WaitResultFn w)
    show ?thesis unfolding h WaitResultFn by (simp add: Let_def a assms adds_intros)
  qed
qed

lemma adds_dispatch_loop:
  assumes "\<And>hid v. P (Invoked hid v)" "\<And>n v. P (Sent n v)" "\<And>w out. P (Settled (WaiterP w) out)"
  shows "adds P s s' \<Longrightarrow> adds P s (dispatch_loop cfg env ty hs s')"
  by (induction hs arbitrary: s') (simp_all add: adds_invoke [OF assms])

lemma adds_handleMessage:
  assumes "\<And>hid v. P (Invoked hid v)" "\<And>n v. P (Sent n v)" "\<And>w out. P (Settled (WaiterP w) out)"
    "\<And>nm a. P (Emitted nm a)" "\<And>err. P (Thrown err)" "\<And>i out. P (Settled (RequestP i) out)"
  shows "adds P s (handleMessage cfg data s)"
  by (simp add: handleMessage_def Let_def assms adds_intros adds_dispatch_loop
      split: sum.splits option.splits prod.splits)

lemma adds_on_message:
  assumes "\<And>hid v. P (Invoked hid v)" "\<And>n v. P (Sent n v)" "\<And>w out. P (Settled (WaiterP w) out)"
    "\<And>nm a. P (Emitted nm a)" "\<And>err. P (Thrown err)" "\<And>i out. P (Settled (RequestP i) out)"
  shows "adds P s (on_message cfg n data s)"
  by (simp add: on_message_def adds_handleMessage [OF assms] adds_refl)

lemma adds_timer_fires:
  assumes "\<And>n v. P (Sent n v)" "\<And>p out. P (Settled p out)" "\<And>n. P (Created (ConnectP n))"
  shows "adds P s (timer_fires cfg t ctor s)"
  by (simp add: timer_fires_def Let_def assms adds_intros adds_connect [THEN adds_trans [rotated]]
      split: option.splits prod.splits timer_cb.splits)

lemma grows_step: "adds (\<lambda>e. True) s (step cfg e s)"
  by (cases e)
     (simp_all add: adds_connect adds_close adds_send adds_request adds_intros adds_client_step
       adds_on_open adds_on_message adds_on_error adds_on_close adds_timer_fires adds_run_rejection)

lemma grows_run: "adds (\<lambda>e. True) s (run cfg evs s)"
  unfolding run_def
proof (induction evs arbitrary: s)
  case Nil
  show ?case by (simp add: adds_refl)
next
  case (Cons e evs)
  from adds_trans [OF grows_step Cons.IH] show ?case by simp
qed

subsection \<open>Requests\<close>

lemma mk_id_nonempty: "mk_id now c \<noteq> []"
  by (simp add: mk_id_def)

lemma pending_nonempty:
  assumes "invariant s" "i \<in> fst ` set (pending s)"
  shows "i \<noteq> []"
proof -
  from assms(2) obtain t where "(i, t) \<in> set (pending s)" by force
  with assms(1) have "request_ok s i"
    using pending_created unfolding invariant_def inv_requests_def by blast
  from request_ok_id [OF this] obtain now c where "i = mk_id now c" by blast
  then show ?thesis by (simp add: mk_id_nonempty)
qed

lemma not_created_not_pending:
  "invariant s \<Longrightarrow> \<not> created s (RequestP i) \<Longrightarrow> i \<notin> fst ` set (pending s)"
  unfolding invariant_def inv_requests_def by blast

lemma pending_iff_unsettled:
  assumes "invariant s" "created s (RequestP i)"
  shows "(settlements s (RequestP i) = []) = (i \<in> fst ` set (pending s))"
    and "length (settlements s (RequestP i)) \<le> 1"
    and "(settlements s (RequestP i) = []) = request_timer s i"
proof -
  from assms have ir: "inv_requests s" and ok: "request_ok s i"
    unfolding invariant_def inv_requests_def by blast+
  from ok consider
    (P) t d ty where "(i, t) \<in> set (pending s)" "(t, d, RequestTimeout i ty) \<in> set (timers s)"
      "settlements s (RequestP i) = []"
    | (S) "i \<notin> fst ` set (pending s)" "length (settlements s (RequestP i)) = 1"
    unfolding request_ok_def by blast
  then have "((settlements s (RequestP i) = []) = (i \<in> fst ` set (pending s)))
             \<and> length (settlements s (RequestP i)) \<le> 1
             \<and> ((settlements s (RequestP i) = []) = request_timer s i)"
  proof cases
    case P
    from P(1) have "i \<in> fst ` set (pending s)" by force
    moreover from P(2) have "request_timer s i"
      unfolding request_timer_def list_ex_iff by force
    ultimately show ?thesis using P(3) by simp
  next
    case S
    have "\<not> request_timer s i"
    proof
      assume "request_timer s i"
      then obtain e where e: "e \<in> set (timers s)"
        "(case snd (snd e) of RequestTimeout j ty \<Rightarrow> j = i | _ \<Rightarrow> False)"
        unfolding request_timer_def list_ex_iff by blast
      from e(2) obtain ty where "snd (snd e) = RequestTimeout i ty"
        by (cases "snd (snd e)") simp_all
      with ir e(1) have "(i, fst e) \<in> set (pending s)" unfolding inv_requests_def by blast
      then have "i \<in> fst ` set (pending s)" by force
      with S(1) show False by simp
    qed
    with S show ?thesis by auto
  qed
  then show "(settlements s (RequestP i) = []) = (i \<in> fst ` set (pending s))"
    and "length (settlements s (RequestP i)) \<le> 1"
    and "(settlements s (RequestP i) = []) = request_timer s i" by blast+
qed

lemma settle_count:
  "distinct (map fst ps) \<Longrightarrow>
   concat (map (settled_by (RequestP i)) (map (\<lambda>p. Settled (RequestP (fst p)) out) ps))
   = (if i \<in> fst ` set ps then [out] else [])"
  by (induction ps) auto

lemma settle_count_comp:
  "distinct (map fst ps) \<Longrightarrow>
   concat (map (settled_by (RequestP i) \<circ> (\<lambda>p. Settled (RequestP (fst p)) out)) ps)
   = (if i \<in> fst ` set ps then [out] else [])"
  using settle_count [of ps i out] by simp

lemma settlements_settle:
  "settlements (log_effect (Settled (RequestP j) out)
                  ((clearTimeout t s)\<lparr>pending := Map_delete j (pending (clearTimeout t s))\<rparr>)) (RequestP i)
   = settlements s (RequestP i) @ (if j = i then [out] else [])"
  by (auto simp: obs2)

lemma pending_get_iff:
  "pending_get s key = Some (j, t) \<longleftrightarrow> key = JStr j \<and> map_of (pending s) j = Some t"
  by (auto simp: pending_get_def split: jsval.splits option.splits)

lemma pending_get_None:
  "pending_get s (JStr j) = None \<longleftrightarrow> j \<notin> fst ` set (pending s)"
  by (simp add: pending_get_def map_of_eq_None_iff [symmetric] split: option.splits)

lemma truthy_JStr: "truthy (JStr i) \<longleftrightarrow> i \<noteq> []"
  by simp

lemma handleMessage_requests:
  assumes inv: "invariant s" and p: "i \<in> fst ` set (pending s)"
  shows "settlements (handleMessage cfg data s) (RequestP i)
         = settlements s (RequestP i)
           @ (case decode_opt cfg data of
                Inl err \<Rightarrow> []
              | Inr env \<Rightarrow>
                  if truthy env \<and> typeof (get_prop env ''type'') = ''string''
                     \<and> get_prop env ''replyTo'' = JStr i
                  then [if truthy (get_prop env ''error'') then RejectedReply (get_prop env ''error'')
                        else Resolved (get_prop env ''payload'')]
                  else [])"
proof (cases "decode_opt cfg data")
  case (Inl e)
  have "adds (\<lambda>e. \<not> settles_request e) s (handleMessage cfg data s)"
    by (simp add: handleMessage_def Inl adds_intros)
  from adds_requests [OF this] Inl show ?thesis by simp
next
  case (Inr env)
  from pending_nonempty [OF inv p] have ne: "truthy (JStr i)" by simp
  show ?thesis
  proof (cases "truthy env \<and> typeof (get_prop env ''type'') = ''string''")
    case False
    then show ?thesis by (auto simp: handleMessage_def Inr)
  next
    case ok: True
    show ?thesis
    proof (cases "truthy (get_prop env ''replyTo'')")
      case False
      with ne have neq: "get_prop env ''replyTo'' \<noteq> JStr i" by auto
      have "adds (\<lambda>e. \<not> settles_request e) s
              (dispatch_loop cfg env ty (handlers_of s ty) s)" for ty
        by (rule adds_dispatch_loop) (simp_all add: adds_refl)
      from adds_requests [OF this] False neq ok show ?thesis
        by (simp add: handleMessage_def Inr)
    next
      case True
      show ?thesis
      proof (cases "pending_get s (get_prop env ''replyTo'')")
        case None
        have "get_prop env ''replyTo'' \<noteq> JStr i"
        proof
          assume "get_prop env ''replyTo'' = JStr i"
          with None p show False by (simp add: pending_get_None)
        qed
        with None True ok show ?thesis by (simp add: handleMessage_def Inr)
      next
        case (Some a)
        obtain j t where a: "a = (j, t)" by (cases a)
        from Some a have k: "get_prop env ''replyTo'' = JStr j" by (simp add: pending_get_iff)
        from Some a True ok show ?thesis
          by (simp add: handleMessage_def Inr Let_def settlements_settle k)
      qed
    qed
  qed
qed

lemma timer_fires_requests:
  assumes inv: "invariant s"
  shows "settlements (timer_fires cfg t ctor s) (RequestP i)
         = settlements s (RequestP i)
           @ (case map_of (timers s) t of
                Some (ms, RequestTimeout j ty) \<Rightarrow>
                  if j = i then [Rejected (Error (''request timeout for '' @ ty @ '' ('' @ i @ '')''))]
                  else []
              | _ \<Rightarrow> [])"
proof (cases "map_of (timers s) t")
  case None
  then show ?thesis by (simp add: timer_fires_def)
next
  case (Some a)
  obtain ms cb where a: "a = (ms, cb)" by (cases a)
  show ?thesis
  proof (cases cb)
    case (RequestTimeout j ty)
    show ?thesis
      by (simp add: timer_fires_def Some a RequestTimeout Let_def settlements_settle)
  next
    case ReconnectTimer
    have "adds (\<lambda>e. \<not> settles_request e) s (connect ctor (clearTimeout t s))"
      by (rule adds_trans [OF _ adds_connect]) (simp_all add: adds_intros)
    from adds_requests [OF this] show ?thesis
      by (simp add: timer_fires_def Some a ReconnectTimer)
  next
    case HeartbeatTick
    have "adds (\<lambda>e. \<not> settles_request e) s (ws_send v s)" for v
      by (simp add: adds_intros)
    from adds_requests [OF this] show ?thesis
      by (simp add: timer_fires_def Some a HeartbeatTick)
  next
    case (SendWaitTimeout ex)
    have "adds (\<lambda>e. \<not> settles_request e) s
            (log_effect (Settled (WaiterP t) out) (unsubscribe_all t (clearTimeout t s)))" for out
      by (simp add: adds_intros)
    from adds_requests [OF this] show ?thesis
      by (simp add: timer_fires_def Some a SendWaitTimeout)
  next
    case WaitForTimeout
    have "adds (\<lambda>e. \<not> settles_request e) s
            (log_effect (Settled (WaiterP t) out) (unsubscribe_all t (clearTimeout t s)))" for out
      by (simp add: adds_intros)
    from adds_requests [OF this] show ?thesis
      by (simp add: timer_fires_def Some a WaitForTimeout)
  qed
qed

lemma on_close_requests:
  assumes inv: "invariant s"
  shows "settlements (on_close cfg n rnd s) (RequestP i)
         = settlements s (RequestP i)
           @ (if i \<in> fst ` set (pending s) \<and> n < length (sockets s) \<and> sockets s ! n \<noteq> CLOSED
                 \<and> connected_flag s
              then [Rejected (Error ''socket closed'')] else [])"
proof (cases "n < length (sockets s) \<and> sockets s ! n \<noteq> CLOSED \<and> connected_flag s")
  case True
  from inv have d: "distinct (map fst (pending s))" by (simp add: invariant_def inv_requests_def)
  from True have g: "n < length (sockets s)" "sockets s ! n \<noteq> CLOSED" "connected_flag s" by simp_all
  from settlements_append [OF on_close_connected(2) [OF g]] True
  show ?thesis by (simp add: settle_count_comp [OF d])
next
  case False
  have "adds (\<lambda>e. \<not> settles_request e) s (on_close cfg n rnd s)"
  proof (cases "n < length (sockets s) \<and> sockets s ! n \<noteq> CLOSED")
    case g: True
    with False have "\<not> connected_flag s" by simp
    with g show ?thesis
      by (simp add: on_close_def Let_def adds_intros adds_scheduleReconnect)
  next
    case g: False
    have "on_close cfg n rnd s = s" unfolding on_close_def by (simp only: g if_False)
    then show ?thesis by (simp add: adds_refl)
  qed
  from adds_requests [OF this] False show ?thesis by auto
qed

lemma step_requests:
  assumes inv: "invariant s"
  shows "settlements (step cfg e s) (RequestP i)
         = settlements s (RequestP i)
           @ (if i \<in> fst ` set (pending s) then request_paths cfg e s i else [])"
proof -
  note quiet_step = adds_requests [of s "step cfg e s" i]
  have other: ?thesis if "adds (\<lambda>e. \<not> settles_request e) s (step cfg e s)" "request_paths cfg e s i = []"
    using adds_requests [OF that(1)] that(2) by simp
  show ?thesis
  proof (cases e)
    case (WsMessage n data)
    show ?thesis
    proof (cases "i \<in> fst ` set (pending s)")
      case True
      from handleMessage_requests [OF inv True, of cfg data] True show ?thesis
        by (auto simp: WsMessage on_message_def request_paths_def)
    next
      case False
      have "settlements (handleMessage cfg data s) (RequestP i) = settlements s (RequestP i)"
      proof (cases "created s (RequestP i)")
        case c: True
        have g: "adds (\<lambda>e. True) s (handleMessage cfg data s)"
          by (rule adds_handleMessage) simp_all
        from adds_created [OF g c] have c': "created (handleMessage cfg data s) (RequestP i)" .
        from adds_settlements_prefix [OF g] obtain ys where
          ys: "settlements (handleMessage cfg data s) (RequestP i) = settlements s (RequestP i) @ ys"
          by blast
        from pending_iff_unsettled(1,2) [OF inv c] False
        have "length (settlements s (RequestP i)) = 1"
          by (cases "settlements s (RequestP i)") simp_all
        moreover from pending_iff_unsettled(2) [OF invariant_handleMessage [OF inv] c']
        have "length (settlements (handleMessage cfg data s) (RequestP i)) \<le> 1" .
        ultimately show ?thesis using ys by simp
      next
        case n: False
        have "\<not> created (handleMessage cfg data s) (RequestP i)"
        proof -
          have "adds (\<lambda>e. e \<noteq> Created (RequestP i)) s (handleMessage cfg data s)"
            by (rule adds_handleMessage) simp_all
          then obtain xs where "trace (handleMessage cfg data s) = trace s @ xs"
            "list_all (\<lambda>e. e \<noteq> Created (RequestP i)) xs" unfolding adds_def by blast
          with n show ?thesis unfolding created_def list_all_iff by auto
        qed
        with invariant_handleMessage [OF inv, of cfg data] n inv show ?thesis
          unfolding invariant_def inv_requests_def by simp
      qed
      with False show ?thesis by (simp add: WsMessage on_message_def)
    qed
  next
    case (TimerFires t ctor)
    show ?thesis
    proof (cases "i \<in> fst ` set (pending s)")
      case True
      with timer_fires_requests [OF inv, of cfg t ctor i] show ?thesis
        by (simp add: TimerFires request_paths_def)
    next
      case False
      have "(case map_of (timers s) t of
                Some (ms, RequestTimeout j ty) \<Rightarrow>
                  if j = i then [Rejected (Error (''request timeout for '' @ ty @ '' ('' @ i @ '')''))]
                  else []
              | _ \<Rightarrow> []) = []"
      proof (cases "map_of (timers s) t")
        case None
        then show ?thesis by simp
      next
        case (Some a)
        obtain ms cb where a: "a = (ms, cb)" by (cases a)
        from Some a have tm: "(t, ms, cb) \<in> set (timers s)" by (simp add: map_of_SomeD)
        show ?thesis
        proof (cases cb)
          case (RequestTimeout j ty)
          from inv tm RequestTimeout have "(j, t) \<in> set (pending s)"
            unfolding invariant_def inv_requests_def by force
          then have "j \<in> fst ` set (pending s)" by force
          with False have "j \<noteq> i" by blast
          then show ?thesis by (simp add: Some a RequestTimeout)
        qed (simp_all add: Some a)
      qed
      with timer_fires_requests [OF inv, of cfg t ctor i] False show ?thesis
        by (simp add: TimerFires)
    qed
  next
    case (WsClose n rnd)
    from on_close_requests [OF inv, of cfg n rnd i] show ?thesis
      by (simp add: WsClose request_paths_def)
  next
    case (CallConnect ctor)
    show ?thesis by (rule other) (simp_all add: CallConnect adds_connect request_paths_def)
  next
    case CallClose
    show ?thesis by (rule other) (simp_all add: CallClose adds_close request_paths_def)
  next
    case (CallSend ty p)
    show ?thesis by (rule other) (simp_all add: CallSend adds_send request_paths_def)
  next
    case (CallRequest ty p ms now)
    show ?thesis by (rule other) (simp_all add: CallRequest adds_request request_paths_def)
  next
    case (CallOnType ty f)
    show ?thesis by (rule other) (simp_all add: CallOnType adds_intros request_paths_def)
  next
    case (CallOffType ty hid)
    show ?thesis by (rule other) (simp_all add: CallOffType adds_intros request_paths_def)
  next
    case (Client c)
    show ?thesis by (rule other) (simp_all add: Client adds_client_step request_paths_def)
  next
    case (WsOpen n)
    show ?thesis by (rule other) (simp_all add: WsOpen adds_on_open request_paths_def)
  next
    case (WsError n)
    show ?thesis by (rule other) (simp_all add: WsError adds_on_error request_paths_def)
  next
    case (RejectionRuns k)
    show ?thesis by (rule other) (simp_all add: RejectionRuns adds_run_rejection request_paths_def)
  qed
qed

lemma set_requests_of: "set (requests_of s) = {i. created s (RequestP i)}"
proof -
  have "set (concat (map (\<lambda>e. case e of Created (RequestP i) \<Rightarrow> [i] | _ \<Rightarrow> []) xs))
        = {i. Created (RequestP i) \<in> set xs}" for xs
  proof (induction xs)
    case Nil
    show ?case by simp
  next
    case (Cons e xs)
    show ?case
    proof (cases e)
      case (Created p)
      with Cons show ?thesis by (cases p) auto
    qed (use Cons in auto)
  qed
  then show ?thesis by (simp add: requests_of_def created_def)
qed

lemma pending_ids:
  assumes "invariant s"
  shows "fst ` set (pending s) = {i. created s (RequestP i) \<and> settlements s (RequestP i) = []}"
proof (intro set_eqI iffI)
  fix i assume p: "i \<in> fst ` set (pending s)"
  with not_created_not_pending [OF assms] have c: "created s (RequestP i)" by blast
  from pending_iff_unsettled(1) [OF assms c] p c
  show "i \<in> {i. created s (RequestP i) \<and> settlements s (RequestP i) = []}" by simp
next
  fix i assume "i \<in> {i. created s (RequestP i) \<and> settlements s (RequestP i) = []}"
  then have c: "created s (RequestP i)" and u: "settlements s (RequestP i) = []" by simp_all
  from pending_iff_unsettled(1) [OF assms c] u show "i \<in> fst ` set (pending s)" by simp
qed

lemma pending_size:
  assumes i0: "invariant s0" and i1: "invariant s" and g: "adds (\<lambda>e. True) s0 s"
    and h1: "list_all (\<lambda>j. j \<in> set (requests_of s0) \<or> settlements s (RequestP j) \<noteq> []) (requests_of s)"
    and h2: "list_all (\<lambda>j. settlements s (RequestP j) = []) (map fst (pending s0))"
  shows "length (pending s) = length (pending s0)"
proof -
  have "fst ` set (pending s) = fst ` set (pending s0)"
  proof (intro set_eqI iffI)
    fix i assume "i \<in> fst ` set (pending s)"
    then have c: "created s (RequestP i)" and u: "settlements s (RequestP i) = []"
      unfolding pending_ids [OF i1] by simp_all
    from c have "i \<in> set (requests_of s)" by (simp add: set_requests_of)
    with h1 u have "i \<in> set (requests_of s0)" unfolding list_all_iff by blast
    then have c0: "created s0 (RequestP i)" by (simp add: set_requests_of)
    from adds_settlements_prefix [OF g, of "RequestP i"] u
    have "settlements s0 (RequestP i) = []" by auto
    with c0 show "i \<in> fst ` set (pending s0)" unfolding pending_ids [OF i0] by simp
  next
    fix i assume p: "i \<in> fst ` set (pending s0)"
    then have c0: "created s0 (RequestP i)" unfolding pending_ids [OF i0] by simp
    from adds_created [OF g c0] have c: "created s (RequestP i)" .
    from p h2 have "settlements s (RequestP i) = []" unfolding list_all_iff by auto
    with c show "i \<in> fst ` set (pending s)" unfolding pending_ids [OF i1] by simp
  qed
  then have "set (map fst (pending s)) = set (map fst (pending s0))" by simp
  moreover from i0 i1 have "distinct (map fst (pending s))" "distinct (map fst (pending s0))"
    by (simp_all add: invariant_def inv_requests_def)
  ultimately have "length (map fst (pending s)) = length (map fst (pending s0))"
    by (metis distinct_card)
  then show ?thesis by simp
qed

lemma request_open:
  assumes "ws_is_open s" "invariant s"
  shows "pending (request cfg ty p ms now s) = pending s @ [(mk_id now (Suc (idCounter s)), nextTimer s)]"
    and "timers (request cfg ty p ms now s)
         = timers s @ [(nextTimer s, (case ms of Some m \<Rightarrow> m | None \<Rightarrow> 15000),
                        RequestTimeout (mk_id now (Suc (idCounter s))) ty)]"
    and "trace (request cfg ty p ms now s)
         = trace (ws_send (encode_opt cfg (request_envelope ty (mk_id now (Suc (idCounter s))) p))
                    (log_effect (Created (RequestP (mk_id now (Suc (idCounter s))))) s))"
    and "created (request cfg ty p ms now s) (RequestP (mk_id now (Suc (idCounter s))))"
proof -
  from assms(2) have "inv_requests s" by (simp add: invariant_def)
  from fresh_id [OF this, of now] assms(2)
  have "mk_id now (Suc (idCounter s)) \<notin> fst ` set (pending s)"
    by (intro not_created_not_pending)
  then have ms: "Map_set (mk_id now (Suc (idCounter s))) t (pending s)
                 = pending s @ [(mk_id now (Suc (idCounter s)), t)]" for t
    by (rule Map_set_fresh)
  from assms(1) obtain n where n: "ws s = Some n" by (cases "ws s") (simp_all add: ws_is_open_def)
  from assms(1) ms
  show "pending (request cfg ty p ms now s) = pending s @ [(mk_id now (Suc (idCounter s)), nextTimer s)]"
    by (simp add: request_def Let_def ws_send_def n log_effect_def setTimeout_def)
  from assms(1)
  show "timers (request cfg ty p ms now s)
         = timers s @ [(nextTimer s, (case ms of Some m \<Rightarrow> m | None \<Rightarrow> 15000),
                        RequestTimeout (mk_id now (Suc (idCounter s))) ty)]"
    by (simp add: request_def Let_def ws_send_def n log_effect_def setTimeout_def)
  from assms(1)
  show "trace (request cfg ty p ms now s)
         = trace (ws_send (encode_opt cfg (request_envelope ty (mk_id now (Suc (idCounter s))) p))
                    (log_effect (Created (RequestP (mk_id now (Suc (idCounter s))))) s))"
    by (simp add: request_def Let_def ws_send_def n log_effect_def setTimeout_def)
  from assms(1)
  show "created (request cfg ty p ms now s) (RequestP (mk_id now (Suc (idCounter s))))"
    by (simp add: request_def Let_def ws_send_def n log_effect_def setTimeout_def created_def)
qed

text \<open>
  Claim C1. A call of \<^verbatim>\<open>request\<close> on an open socket takes a fresh id, adds it to the pending
  map with a new timer and sends the envelope. In every state that follows, whatever the
  events, the promise has at most one settlement; it is unsettled exactly as long as the id
  is in the pending map, and exactly as long as its timeout timer is set, so the id is
  deleted and the timer cancelled together with the one settlement. An event settles the
  promise only while the id is pending, and only on one of three paths: a frame that
  decodes to an envelope whose \<^verbatim>\<open>replyTo\<close> is the id (resolving with the payload, or rejecting
  with the reply's error when it carries one), the timeout timer, and the close of a
  socket while the transport is connected. After the call and any further events that
  include further calls, when every request created since the state before the call is
  settled and no request that was pending before is, the pending map has its size of before.
\<close>

theorem request_settles_once:
  assumes "ws_is_open (run cfg evs0 (init a))"
  shows "(let s0 = run cfg evs0 (init a);
              i = mk_id now (Suc (idCounter s0));
              s1 = request cfg ty p ms now s0;
              s = run cfg evs s1
          in \<not> created s0 (RequestP i)
             \<and> pending s1 = pending s0 @ [(i, nextTimer s0)]
             \<and> timers s1 = timers s0 @ [(nextTimer s0, (case ms of Some m \<Rightarrow> m | None \<Rightarrow> 15000),
                                          RequestTimeout i ty)]
             \<and> trace s1 = trace (ws_send (encode_opt cfg (request_envelope ty i p))
                                    (log_effect (Created (RequestP i)) s0))
             \<and> created s (RequestP i)
             \<and> length (settlements s (RequestP i)) \<le> 1
             \<and> (settlements s (RequestP i) = []) = (i \<in> fst ` set (pending s))
             \<and> (settlements s (RequestP i) = []) = request_timer s i
             \<and> (\<forall>e. settlements (step cfg e s) (RequestP i)
                      = settlements s (RequestP i)
                        @ (if i \<in> fst ` set (pending s) then request_paths cfg e s i else []))
             \<and> (list_all (\<lambda>j. j \<in> set (requests_of s0) \<or> settlements s (RequestP j) \<noteq> [])
                   (requests_of s)
                 \<and> list_all (\<lambda>j. settlements s (RequestP j) = []) (map fst (pending s0))
                 \<longrightarrow> length (pending s) = length (pending s0)))"
proof -
  let ?pre = "run cfg evs0 (init a)"
  let ?i = "mk_id now (Suc (idCounter ?pre))"
  let ?req = "request cfg ty p ms now ?pre"
  let ?fin = "run cfg evs ?req"
  have i0: "invariant ?pre" by (rule invariant_reachable)
  from invariant_request [OF i0] have i1: "invariant ?req" .
  from invariant_run [OF i1] have i2: "invariant ?fin" .
  from i0 have "inv_requests ?pre" by (simp add: invariant_def)
  from fresh_id [OF this] have 1: "\<not> created ?pre (RequestP ?i)" .
  note 2 = request_open(1-3) [OF assms i0, of cfg ty p ms now]
  from adds_created [OF grows_run request_open(4) [OF assms i0]]
  have 3: "created ?fin (RequestP ?i)" .
  note 4 = pending_iff_unsettled [OF i2 3]
  have 5: "settlements (step cfg e ?fin) (RequestP ?i)
           = settlements ?fin (RequestP ?i)
             @ (if ?i \<in> fst ` set (pending ?fin) then request_paths cfg e ?fin ?i else [])" for e
    by (rule step_requests [OF i2])
  have g: "adds (\<lambda>e. True) ?pre ?fin"
    by (rule adds_trans [OF _ grows_run]) (simp add: adds_request)
  have 6: "length (pending ?fin) = length (pending ?pre)"
    if "list_all (\<lambda>j. j \<in> set (requests_of ?pre) \<or> settlements ?fin (RequestP j) \<noteq> []) (requests_of ?fin)"
      "list_all (\<lambda>j. settlements ?fin (RequestP j) = []) (map fst (pending ?pre))"
    by (rule pending_size [OF i0 i2 g that])
  show ?thesis
    unfolding Let_def
    apply (intro conjI allI impI)
             apply (rule 1)
            apply (rule 2(1))
           apply (rule 2(2))
          apply (rule 2(3))
         apply (rule 3)
        apply (rule 4(2))
       apply (rule 4(1))
      apply (rule 4(3))
     apply (rule 5)
    apply (erule conjE)
    apply (erule (1) 6)
    done
qed

theorem request_settles_once_witness:
  "ws_is_open (run (default_config (table_host reply_frames)) [CallConnect None, WsOpen 0] (init True))
   \<and> list_all
       (\<lambda>j. j \<in> set (requests_of
                      (run (default_config (table_host reply_frames)) [CallConnect None, WsOpen 0] (init True)))
            \<or> settlements
                 (run (default_config (table_host reply_frames)) two_requests
                    (request (default_config (table_host reply_frames)) ''A'' JNull None 1000
                       (run (default_config (table_host reply_frames)) [CallConnect None, WsOpen 0] (init True))))
                 (RequestP j) \<noteq> [])
       (requests_of
          (run (default_config (table_host reply_frames)) two_requests
             (request (default_config (table_host reply_frames)) ''A'' JNull None 1000
                (run (default_config (table_host reply_frames)) [CallConnect None, WsOpen 0] (init True)))))
   \<and> length (pending
        (run (default_config (table_host reply_frames)) two_requests
           (request (default_config (table_host reply_frames)) ''A'' JNull None 1000
              (run (default_config (table_host reply_frames)) [CallConnect None, WsOpen 0] (init True)))))
     = length (pending (run (default_config (table_host reply_frames)) [CallConnect None, WsOpen 0] (init True)))
   \<and> settlements
        (run (default_config (table_host reply_frames)) two_requests
           (request (default_config (table_host reply_frames)) ''A'' JNull None 1000
              (run (default_config (table_host reply_frames)) [CallConnect None, WsOpen 0] (init True))))
        (RequestP ''rs-1'') = [Resolved (JStr ''ok'')]
   \<and> settlements
        (run (default_config (table_host reply_frames)) two_requests
           (request (default_config (table_host reply_frames)) ''A'' JNull None 1000
              (run (default_config (table_host reply_frames)) [CallConnect None, WsOpen 0] (init True))))
        (RequestP ''rt-2'') = [Rejected (Error ''request timeout for B (rt-2)'')]"
proof -
  let ?cfg = "default_config (table_host reply_frames)"
  let ?pre = "run ?cfg [CallConnect None, WsOpen 0] (init True)"
  let ?fin = "run ?cfg two_requests (request ?cfg ''A'' JNull None 1000 ?pre)"
  have o: "ws_is_open ?pre" by code_simp
  have h1: "list_all (\<lambda>j. j \<in> set (requests_of ?pre) \<or> settlements ?fin (RequestP j) \<noteq> []) (requests_of ?fin)"
    by code_simp
  have h2: "list_all (\<lambda>j. settlements ?fin (RequestP j) = []) (map fst (pending ?pre))"
    by code_simp
  have v: "settlements ?fin (RequestP ''rs-1'') = [Resolved (JStr ''ok'')]"
    "settlements ?fin (RequestP ''rt-2'') = [Rejected (Error ''request timeout for B (rt-2)'')]"
    by code_simp+
  from request_settles_once [OF o, of 1000 "''A''" JNull None two_requests] h1 h2
  have "length (pending ?fin) = length (pending ?pre)"
    unfolding Let_def by blast
  with o h1 v show ?thesis by (intro conjI)
qed

end
